theory Spec2Isabelle
  imports Main
begin

section \<open>Python string primitives used by update\_rhp\_unit\_paths.py\<close>

text \<open>
  Strings are \<^typ>\<open>string\<close> (lists of characters). The text of a file is the text
  Python's \<^verbatim>\<open>open(path, 'r').read()\<close> returns, with line ends already
  translated to the single newline character.
\<close>

definition newline :: char where
  "newline = CHR 0x0A"

text \<open>\<^verbatim>\<open>s.startswith(p)\<close>, as a recursive function that evaluates.\<close>

fun startswith :: "string \<Rightarrow> string \<Rightarrow> bool" where
  "startswith s [] = True"
| "startswith [] (p # ps) = False"
| "startswith (c # cs) (p # ps) = (c = p \<and> startswith cs ps)"

text \<open>\<^verbatim>\<open>s.lstrip('>')\<close> and \<^verbatim>\<open>s.rstrip('<')\<close>: every leading
  (trailing) copy of the one character is removed.\<close>

definition lstrip :: "char \<Rightarrow> string \<Rightarrow> string" where
  "lstrip c s = dropWhile (\<lambda>x. x = c) s"

definition rstrip :: "char \<Rightarrow> string \<Rightarrow> string" where
  "rstrip c s = rev (dropWhile (\<lambda>x. x = c) (rev s))"

text \<open>\<^verbatim>\<open>s.replace(old, new, 1)\<close>: the leftmost occurrence of \<open>old\<close> is replaced,
  and \<open>s\<close> is returned as it is when there is none.\<close>

fun replace_first :: "string \<Rightarrow> string \<Rightarrow> string \<Rightarrow> string" where
  "replace_first old new [] = (if old = [] then new else [])"
| "replace_first old new (c # cs) =
     (if startswith (c # cs) old then new @ drop (length old) (c # cs)
      else c # replace_first old new cs)"

text \<open>\<^verbatim>\<open>s.replace(old, new)\<close>: every occurrence, left to right, without overlap.
  The counter \<open>k\<close> is the number of characters of the current occurrence still to be
  skipped. With an empty \<open>old\<close> Python puts \<open>new\<close> before every character and at
  the end.\<close>

fun replace_scan :: "string \<Rightarrow> string \<Rightarrow> nat \<Rightarrow> string \<Rightarrow> string" where
  "replace_scan old new k [] = []"
| "replace_scan old new (Suc k) (c # cs) = replace_scan old new k cs"
| "replace_scan old new 0 (c # cs) =
     (if startswith (c # cs) old then new @ replace_scan old new (length old - 1) cs
      else c # replace_scan old new 0 cs)"

definition replace_all :: "string \<Rightarrow> string \<Rightarrow> string \<Rightarrow> string" where
  "replace_all old new s =
     (if old = [] then new @ concat (map (\<lambda>c. c # new) s)
      else replace_scan old new 0 s)"

text \<open>\<^verbatim>\<open>s.split(sep)\<close> with a one-character separator, and \<^verbatim>\<open>sep.join(xs)\<close>.\<close>

fun split_sep :: "char \<Rightarrow> string \<Rightarrow> string list" where
  "split_sep sep [] = [[]]"
| "split_sep sep (c # cs) =
     (if c = sep then [] # split_sep sep cs
      else (case split_sep sep cs of
              [] \<Rightarrow> [[c]]
            | w # ws \<Rightarrow> (c # w) # ws))"

fun join_sep :: "string \<Rightarrow> string list \<Rightarrow> string" where
  "join_sep sep [] = []"
| "join_sep sep [x] = x"
| "join_sep sep (x # y # ys) = x @ sep @ join_sep sep (y # ys)"

text \<open>\<^verbatim>\<open>s.lower()\<close> on the ASCII letters; any other character is kept.\<close>

definition lower_char :: "char \<Rightarrow> char" where
  "lower_char c =
     (case map_of (zip ''ABCDEFGHIJKLMNOPQRSTUVWXYZ'' ''abcdefghijklmnopqrstuvwxyz'') c of
        None \<Rightarrow> c
      | Some d \<Rightarrow> d)"

definition lower :: "string \<Rightarrow> string" where
  "lower s = map lower_char s"

text \<open>\<^verbatim>\<open>str(n)\<close> for a length.\<close>

fun str_nat :: "nat \<Rightarrow> string" where
  "str_nat n =
     (if n < 10 then [''0123456789'' ! n]
      else str_nat (n div 10) @ [''0123456789'' ! (n mod 10)])"

declare str_nat.simps [simp del]

section \<open>The regular expression \<^verbatim>\<open>>.*_rpy<\<close>\<close>

text \<open>
  \<^verbatim>\<open>re.findall(">.*_rpy<", content)\<close> scans the content from left to right. At a
  \<^verbatim>\<open>>\<close> the greedy \<^verbatim>\<open>.*\<close> first takes every character up to the end of the line
  (the dot matches no newline) and then gives characters back, one at a time, until
  \<^verbatim>\<open>_rpy<\<close> follows. \<open>match_tail k rest\<close> is that backtracking for the text after
  the \<^verbatim>\<open>>\<close>: it tries \<open>k\<close>, \<open>k - 1\<close>, ..., \<open>0\<close> characters for the star and returns
  the text matched after the \<^verbatim>\<open>>\<close>. After a match the scan resumes behind it.
\<close>

fun match_tail :: "nat \<Rightarrow> string \<Rightarrow> string option" where
  "match_tail 0 rest = (if startswith rest ''_rpy<'' then Some (take 5 rest) else None)"
| "match_tail (Suc k) rest =
     (if startswith (drop (Suc k) rest) ''_rpy<'' then Some (take (Suc k + 5) rest)
      else match_tail k rest)"

definition match_here :: "string \<Rightarrow> string option" where
  "match_here rest = match_tail (length (takeWhile (\<lambda>c. c \<noteq> newline) rest)) rest"

fun findall_scan :: "nat \<Rightarrow> string \<Rightarrow> string list" where
  "findall_scan k [] = []"
| "findall_scan (Suc k) (c # cs) = findall_scan k cs"
| "findall_scan 0 (c # cs) =
     (if c = CHR ''>'' then
        (case match_here cs of
           None \<Rightarrow> findall_scan 0 cs
         | Some m \<Rightarrow> (c # m) # findall_scan (length m) cs)
      else findall_scan 0 cs)"

definition findall :: "string \<Rightarrow> string list" where
  "findall content = findall_scan 0 content"

section \<open>Token encoding\<close>

definition matchToRpyx :: "string \<Rightarrow> string" where
  "matchToRpyx m =
     replace_first ''_rpy'' '''' (rstrip (CHR ''<'') (lstrip (CHR ''>'') m)) @ ''.rpyx''"

definition rpyxToMatch :: "string \<Rightarrow> string" where
  "rpyxToMatch rpyx = ''>'' @ replace_first ''.rpyx'' '''' rpyx @ ''_rpy<''"

section \<open>The functions of \<^verbatim>\<open>os.path\<close>\<close>

text \<open>
  \<^verbatim>\<open>os.path\<close> is modelled by its POSIX flavour (\<^verbatim>\<open>posixpath\<close>), the flavour of
  the paths \<^verbatim>\<open>/proj/A.rpyx\<close>: the separator is \<^verbatim>\<open>/\<close>. The working directory of
  the process is the parameter \<open>cwd\<close>, an absolute path.
\<close>

definition isabs :: "string \<Rightarrow> bool" where
  "isabs s = startswith s ''/''"

text \<open>\<^verbatim>\<open>os.path.join(a, b)\<close>.\<close>

definition join :: "string \<Rightarrow> string \<Rightarrow> string" where
  "join a b =
     (if startswith b ''/'' then b
      else if a = [] \<or> last a = CHR ''/'' then a @ b
      else a @ ''/'' @ b)"

text \<open>The loop of \<^verbatim>\<open>normpath\<close> over the components; \<open>acc\<close> is \<^verbatim>\<open>new_comps\<close>.\<close>

fun norm_comps :: "bool \<Rightarrow> string list \<Rightarrow> string list \<Rightarrow> string list" where
  "norm_comps initial acc [] = acc"
| "norm_comps initial acc (part # comps) =
     (if part = [] \<or> part = ''.'' then norm_comps initial acc comps
      else if part \<noteq> ''..'' \<or> (\<not> initial \<and> acc = []) \<or> (acc \<noteq> [] \<and> last acc = ''..'')
        then norm_comps initial (acc @ [part]) comps
      else if acc \<noteq> [] then norm_comps initial (butlast acc) comps
      else norm_comps initial acc comps)"

definition normpath :: "string \<Rightarrow> string" where
  "normpath path =
     (if path = [] then ''.''
      else
        let initial_slashes =
              (if startswith path ''/'' then
                 (if startswith path ''//'' \<and> \<not> startswith path ''///'' then 2 else 1)
               else (0::nat));
            comps = norm_comps (initial_slashes \<noteq> 0) [] (split_sep (CHR ''/'') path);
            p = replicate initial_slashes (CHR ''/'') @ join_sep ''/'' comps
        in if p = [] then ''.'' else p)"

definition abspath :: "string \<Rightarrow> string \<Rightarrow> string" where
  "abspath cwd path = normpath (if isabs path then path else join cwd path)"

text \<open>\<^verbatim>\<open>os.path.commonprefix\<close> of two component lists, as a length.\<close>

fun common_len :: "string list \<Rightarrow> string list \<Rightarrow> nat" where
  "common_len (x # xs) (y # ys) = (if x = y then Suc (common_len xs ys) else 0)"
| "common_len xs ys = 0"

text \<open>
  \<^verbatim>\<open>os.path.relpath(path, start)\<close>. It raises ValueError on an empty \<open>path\<close>; its
  one caller, \<^verbatim>\<open>prepareReplacements\<close>, passes only paths for which \<open>isabs\<close> holds,
  which are not empty, so that branch is not part of the model.
\<close>

definition relpath :: "string \<Rightarrow> string \<Rightarrow> string \<Rightarrow> string" where
  "relpath cwd path start =
     (let start_list = filter (\<lambda>x. x \<noteq> []) (split_sep (CHR ''/'') (abspath cwd start));
          path_list = filter (\<lambda>x. x \<noteq> []) (split_sep (CHR ''/'') (abspath cwd path));
          i = common_len start_list path_list;
          rel_list = replicate (length start_list - i) ''..'' @ drop i path_list
      in if rel_list = [] then ''.'' else foldl join (hd rel_list) (tl rel_list))"

section \<open>The data of a run\<close>

text \<open>
  The file system as the program meets it: \<open>fs_exists\<close> is \<^verbatim>\<open>os.path.exists\<close>,
  \<open>fs_read p\<close> is the text \<^verbatim>\<open>open(p, 'r').read()\<close> returns, or \<open>None\<close> when it
  raises IOError, and \<open>fs_writable p\<close> says whether \<^verbatim>\<open>open(p, 'w')\<close> succeeds.
\<close>

record filesystem =
  fs_exists :: "string \<Rightarrow> bool"
  fs_read :: "string \<Rightarrow> string option"
  fs_writable :: "string \<Rightarrow> bool"

text \<open>
  An instance of class \<^verbatim>\<open>RhpRpyx\<close>. The two dictionaries keep Python's insertion
  order, so they are association lists; a link map holds references to instances, which
  are addresses of the store. \<open>fileContent\<close> is absent until \<^verbatim>\<open>getLinkedRpyx\<close> sets it.
\<close>

record RhpRpyx =
  absPath :: string
  exists :: bool
  linksDico :: "(string \<times> nat) list"
  replacementsDico :: "(string \<times> string) list"
  fileContent :: "string option"

record RelativePathReplacementStrategy =
  linkCount :: int
  replacementCount :: int
  fileUpdatedCount :: int
  updatedFileCount :: int
  maxFileToUpdate :: int

datatype level = DEBUG | INFO | WARNING | ERROR

text \<open>What the process does to the outside, in order: the records handed to
  \<^verbatim>\<open>logging\<close>, every file opened for reading, every file opened for writing with the
  text written.\<close>

datatype event =
  Log level string
| OpenRead string
| OpenWrite string string

datatype error = IOError string | AttributeError

record state =
  cwd :: string
  fs :: filesystem
  heap :: "nat \<Rightarrow> RhpRpyx"
  nextId :: nat
  indexByAbsPath :: "(string \<times> nat) list"
  strategy :: RelativePathReplacementStrategy
  events :: "event list"

text \<open>A call either returns a value, or raises; in both cases the state reached is
  kept.\<close>

datatype 'a outcome = Returned 'a state | Raised error state

fun final :: "'a outcome \<Rightarrow> state" where
  "final (Returned v st) = st"
| "final (Raised e st) = st"

text \<open>\<^verbatim>\<open>d[k] = v\<close> on an insertion-ordered dictionary.\<close>

fun dict_set :: "('k \<times> 'v) list \<Rightarrow> 'k \<Rightarrow> 'v \<Rightarrow> ('k \<times> 'v) list" where
  "dict_set [] k v = [(k, v)]"
| "dict_set ((k', v') # d) k v =
     (if k' = k then (k, v) # d else (k', v') # dict_set d k v)"

definition log :: "level \<Rightarrow> string \<Rightarrow> state \<Rightarrow> state" where
  "log lv msg st = st\<lparr>events := events st @ [Log lv msg]\<rparr>"

definition emit :: "event \<Rightarrow> state \<Rightarrow> state" where
  "emit e st = st\<lparr>events := events st @ [e]\<rparr>"

definition set_obj :: "nat \<Rightarrow> RhpRpyx \<Rightarrow> state \<Rightarrow> state" where
  "set_obj oid r st = st\<lparr>heap := (heap st)(oid := r)\<rparr>"

section \<open>class RhpRpyx\<close>

text \<open>\<^verbatim>\<open>RhpRpyx(path)\<close>: a new instance at a fresh address.\<close>

definition RhpRpyx_init :: "string \<Rightarrow> state \<Rightarrow> nat \<times> state" where
  "RhpRpyx_init path st =
     (let a = abspath (cwd st) path;
          r = \<lparr>absPath = a, exists = fs_exists (fs st) a, linksDico = [],
               replacementsDico = [], fileContent = None\<rparr>;
          oid = nextId st
      in (oid, (set_obj oid r st)\<lparr>nextId := Suc oid\<rparr>))"

text \<open>\<^verbatim>\<open>Path(self.absPath).absolute()\<close> is \<open>absPath\<close> itself: the path is
  absolute and normalised already.\<close>

definition joinRelativePath :: "nat \<Rightarrow> string \<Rightarrow> state \<Rightarrow> string" where
  "joinRelativePath self relativePath st =
     normpath (join (absPath (heap st self)) relativePath)"

text \<open>The dictionary comprehension of \<^verbatim>\<open>getLinkedRpyx\<close>: one new instance for
  every decoded match, a later equal key replacing the value of the earlier one.\<close>

fun build_links ::
  "nat \<Rightarrow> string list \<Rightarrow> (string \<times> nat) list \<Rightarrow> state \<Rightarrow> (string \<times> nat) list \<times> state" where
  "build_links self [] d st = (d, st)"
| "build_links self (rhpLink # ls) d st =
     (let (c, st') = RhpRpyx_init (if isabs rhpLink then rhpLink
                                   else joinRelativePath self rhpLink st) st
      in build_links self ls (dict_set d rhpLink c) st')"

text \<open>The text of the exception, which the operating system words, is left out of the
  logged message.\<close>

definition getLinkedRpyx :: "nat \<Rightarrow> state \<Rightarrow> ((string \<times> nat) list) outcome" where
  "getLinkedRpyx self st =
     (let p = absPath (heap st self);
          st1 = emit (OpenRead p) st
      in case fs_read (fs st1) p of
           None \<Rightarrow> Raised (IOError p) (log ERROR (''Error reading file '' @ p @ '' : '') st1)
         | Some content \<Rightarrow>
             let st2 = set_obj self ((heap st1 self)\<lparr>fileContent := Some content\<rparr>) st1;
                 matchs = findall content;
                 rhpLinksStr = map matchToRpyx matchs;
                 (rhpRpyxFiles, st3) = build_links self rhpLinksStr [] st2
             in Returned rhpRpyxFiles st3)"

definition linkRpyx :: "nat \<Rightarrow> string \<Rightarrow> nat \<Rightarrow> state \<Rightarrow> state" where
  "linkRpyx self inFilePath newRpyx st =
     set_obj self
       ((heap st self)\<lparr>linksDico := dict_set (linksDico (heap st self)) inFilePath newRpyx\<rparr>) st"

definition prepareReplacements :: "nat \<Rightarrow> state \<Rightarrow> state" where
  "prepareReplacements self st =
     (let r = heap st self;
          d = foldl (\<lambda>d rhpLink. dict_set d (rpyxToMatch rhpLink)
                       (rpyxToMatch (relpath (cwd st) rhpLink (absPath r))))
                [] (filter isabs (map fst (linksDico r)))
      in set_obj self (r\<lparr>replacementsDico := d\<rparr>) st)"

text \<open>\<^verbatim>\<open>RhpRpyx.doReplacements\<close>. The event \<open>OpenWrite\<close> is the attempt to open the
  file for writing, with the text to be written.\<close>

definition doReplacements :: "nat \<Rightarrow> state \<Rightarrow> unit outcome" where
  "doReplacements self st =
     (let r = heap st self in
      case fileContent r of
        None \<Rightarrow> Raised AttributeError st
      | Some content \<Rightarrow>
          let newContent = foldl (\<lambda>c (oldStr, newStr). replace_all oldStr newStr c)
                             content (replacementsDico r);
              st1 = emit (OpenWrite (absPath r) newContent) st
          in if fs_writable (fs st1) (absPath r) then
               Returned () (st1\<lparr>fs := (fs st1)\<lparr>
                  fs_exists := (fs_exists (fs st1))(absPath r := True),
                  fs_read := (fs_read (fs st1))(absPath r := Some newContent)\<rparr>\<rparr>)
             else Raised (IOError (absPath r))
                    (log ERROR (''Error writing file '' @ absPath r @ '' : '') st1))"

definition trace_line :: "RhpRpyx \<Rightarrow> state \<Rightarrow> string \<times> nat \<Rightarrow> event" where
  "trace_line r st x =
     (let link = fst x; rpyx = heap st (snd x);
          replacedStr = rpyxToMatch link;
          newStr = map_of (replacementsDico r) replacedStr
      in Log (if \<not> exists rpyx then WARNING else if newStr \<noteq> None then INFO else DEBUG)
             (''    '' @ replacedStr
              @ (if exists rpyx then '' folder exists'' else '' does not exists'')
              @ (case newStr of None \<Rightarrow> [] | Some n \<Rightarrow> '' => '' @ n)))"

definition trace :: "nat \<Rightarrow> state \<Rightarrow> state" where
  "trace self st =
     (let r = heap st self;
          st1 = log INFO (''Links of '' @ absPath r) st
      in st1\<lparr>events := events st1 @ map (trace_line r st) (linksDico r)\<rparr>)"

section \<open>class RelativePathReplacementStrategy\<close>

definition strategy_init :: "int \<Rightarrow> RelativePathReplacementStrategy" where
  "strategy_init maxFileToUpdate' =
     \<lparr>linkCount = 0, replacementCount = 0, fileUpdatedCount = 0, updatedFileCount = 0,
      maxFileToUpdate = maxFileToUpdate'\<rparr>"

definition prepareAndCountReplacements :: "nat \<Rightarrow> state \<Rightarrow> state" where
  "prepareAndCountReplacements rhpRpyx st =
     (let st1 = prepareReplacements rhpRpyx st;
          nbReplacement = int (length (replacementsDico (heap st1 rhpRpyx)));
          s = strategy st1;
          s1 = s\<lparr>replacementCount := replacementCount s + nbReplacement\<rparr>;
          s2 = s1\<lparr>linkCount := linkCount s1 + int (length (linksDico (heap st1 rhpRpyx)))\<rparr>;
          s3 = (if nbReplacement \<ge> 1 then s2\<lparr>fileUpdatedCount := fileUpdatedCount s2 + 1\<rparr>
                else s2)
      in st1\<lparr>strategy := s3\<rparr>)"

text \<open>\<^verbatim>\<open>RelativePathReplacementStrategy.doReplacements\<close>.\<close>

definition strategy_doReplacements :: "nat \<Rightarrow> state \<Rightarrow> unit outcome" where
  "strategy_doReplacements rhpRpyx st =
     (let r = heap st rhpRpyx in
      if \<not> exists r then
        Returned () (log DEBUG (''Ignoring file '' @ absPath r @ '', as it does not exist'') st)
      else
        let replacementCount' = length (replacementsDico r) in
        if replacementCount' = 0 then
          Returned () (log DEBUG (''Skipping file '' @ absPath r
                                  @ '', as there is no replacement to do'') st)
        else
          case (if updatedFileCount (strategy st) < maxFileToUpdate (strategy st)
                then doReplacements rhpRpyx st else Returned () st) of
            Raised e st' \<Rightarrow> Raised e st'
          | Returned u st1 \<Rightarrow>
              let st2 = log DEBUG (str_nat replacementCount' @ '' replacements written in file ''
                                   @ absPath r) st1;
                  s = strategy st2
              in Returned () (st2\<lparr>strategy := s\<lparr>updatedFileCount := updatedFileCount s + 1\<rparr>\<rparr>))"

section \<open>class RhpIndex\<close>

definition getIndexedRhpyx :: "string \<Rightarrow> state \<Rightarrow> nat option" where
  "getIndexedRhpyx absolutePath st =
     (let lowerAbsPath = lower absolutePath in map_of (indexByAbsPath st) lowerAbsPath)"

definition addIndexedRhpyx :: "nat \<Rightarrow> state \<Rightarrow> state" where
  "addIndexedRhpyx rpyx st =
     (let lowerAbsPath = lower (absPath (heap st rpyx));
          indexedRpyx = map_of (indexByAbsPath st) lowerAbsPath
      in if indexedRpyx = None then
           (log DEBUG (''Adding '' @ lowerAbsPath @ '' to index'') st)
             \<lparr>indexByAbsPath := dict_set (indexByAbsPath st) lowerAbsPath rpyx\<rparr>
         else st)"

section \<open>class RhpLinksUpdater\<close>

text \<open>The body of the first loop of \<^verbatim>\<open>searchLinks\<close>; the second component of the
  pair is \<^verbatim>\<open>listNewRpyxToSearchLinks\<close>.\<close>

definition index_link :: "nat \<Rightarrow> state \<times> nat list \<Rightarrow> string \<times> nat \<Rightarrow> state \<times> nat list" where
  "index_link existingRhpRpyx acc x =
     (let st = fst acc; listNew = snd acc;
          inFileRhpxLink = fst x; linkedRpyx = snd x;
          alreadyIndexedRpyx = getIndexedRhpyx (absPath (heap st linkedRpyx)) st;
          st1 = linkRpyx existingRhpRpyx inFileRhpxLink
                  (case alreadyIndexedRpyx of None \<Rightarrow> linkedRpyx | Some a \<Rightarrow> a) st
      in if alreadyIndexedRpyx = None then
           let st2 = addIndexedRhpyx linkedRpyx st1
           in (st2, if exists (heap st2 linkedRpyx) then listNew @ [linkedRpyx] else listNew)
         else (st1, listNew))"

text \<open>
  \<^verbatim>\<open>searchLinks\<close> calls itself, and nothing in its text bounds the depth, so the
  model takes fuel: the first argument bounds the depth of the recursion, and \<open>None\<close>
  says that the bound was too small. \<open>search_new\<close> is the last loop, over
  \<^verbatim>\<open>listNewRpyxToSearchLinks\<close>.
\<close>

fun searchLinks :: "nat \<Rightarrow> nat \<Rightarrow> int \<Rightarrow> state \<Rightarrow> unit outcome option"
  and search_new :: "nat \<Rightarrow> nat list \<Rightarrow> int \<Rightarrow> state \<Rightarrow> unit outcome option" where
  "searchLinks 0 existingRhpRpyx maxDepth st = None"
| "searchLinks (Suc n) existingRhpRpyx maxDepth st =
     (case getLinkedRpyx existingRhpRpyx st of
        Raised e st' \<Rightarrow> Some (Raised e st')
      | Returned linkedRpyxDico st1 \<Rightarrow>
          let (st2, listNew) = foldl (index_link existingRhpRpyx) (st1, []) linkedRpyxDico;
              st3 = prepareAndCountReplacements existingRhpRpyx st2;
              st4 = trace existingRhpRpyx st3
          in if maxDepth \<noteq> 0 then search_new n listNew (maxDepth - 1) st4
             else Some (Returned () st4))"
| "search_new n [] maxDepth st = Some (Returned () st)"
| "search_new n (notSearchedRpyx # rest) maxDepth st =
     (case searchLinks n notSearchedRpyx maxDepth st of
        None \<Rightarrow> None
      | Some (Raised e st') \<Rightarrow> Some (Raised e st')
      | Some (Returned u st') \<Rightarrow> search_new n rest maxDepth st')"

text \<open>The first loop of \<^verbatim>\<open>update\<close>, over \<^verbatim>\<open>rpyxPathToProcessList\<close>. The call of
  \<^verbatim>\<open>getIndexedRhpyx\<close> is there as in the source: its value is dropped.\<close>

fun update_seeds :: "nat \<Rightarrow> string list \<Rightarrow> state \<Rightarrow> unit outcome option" where
  "update_seeds fuel [] st = Some (Returned () st)"
| "update_seeds fuel (rpyxPathToProcess # rest) st =
     (let st1 = log INFO (''Apply 'RelativePathReplacementStrategy' to file ''
                          @ rpyxPathToProcess) st;
          (rhpRpyx, st2) = RhpRpyx_init rpyxPathToProcess st1;
          dropped = getIndexedRhpyx (absPath (heap st2 rhpRpyx)) st2
      in if \<not> exists (heap st2 rhpRpyx) then
           update_seeds fuel rest
             (log WARNING (absPath (heap st2 rhpRpyx) @ '' does not exist'') st2)
         else
           (case searchLinks fuel rhpRpyx (- 1) st2 of
              None \<Rightarrow> None
            | Some (Raised e st') \<Rightarrow> Some (Raised e st')
            | Some (Returned u st') \<Rightarrow> update_seeds fuel rest st'))"

text \<open>The second loop of \<^verbatim>\<open>update\<close>, over the values of the index.\<close>

fun apply_all :: "nat list \<Rightarrow> state \<Rightarrow> unit outcome" where
  "apply_all [] st = Returned () st"
| "apply_all (indexedRpyx # rest) st =
     (case strategy_doReplacements indexedRpyx st of
        Raised e st' \<Rightarrow> Raised e st'
      | Returned u st' \<Rightarrow> apply_all rest st')"

definition update :: "nat \<Rightarrow> string list \<Rightarrow> state \<Rightarrow> unit outcome option" where
  "update fuel rpyxPathToProcessList st =
     (case update_seeds fuel rpyxPathToProcessList st of
        None \<Rightarrow> None
      | Some (Raised e st') \<Rightarrow> Some (Raised e st')
      | Some (Returned u st') \<Rightarrow> Some (apply_all (map snd (indexByAbsPath st')) st'))"

text \<open>The main block: a strategy with the write cap, an updater with an empty index,
  and \<^verbatim>\<open>update()\<close>. No instance exists yet.\<close>

definition blank :: RhpRpyx where
  "blank = \<lparr>absPath = [], exists = False, linksDico = [], replacementsDico = [],
            fileContent = None\<rparr>"

definition init_state :: "string \<Rightarrow> filesystem \<Rightarrow> int \<Rightarrow> state" where
  "init_state cwd' fs' maxFileToUpdate' =
     \<lparr>cwd = cwd', fs = fs', heap = (\<lambda>a. blank), nextId = 0, indexByAbsPath = [],
      strategy = strategy_init maxFileToUpdate', events = []\<rparr>"

definition run :: "nat \<Rightarrow> string \<Rightarrow> filesystem \<Rightarrow> int \<Rightarrow> string list \<Rightarrow> unit outcome option" where
  "run fuel cwd' fs' maxFileToUpdate' rpyxPathToProcessList =
     update fuel rpyxPathToProcessList (init_state cwd' fs' maxFileToUpdate')"

section \<open>Vocabulary of the properties\<close>

text \<open>\<^verbatim>\<open>sub in s\<close>: the string \<open>sub\<close> occurs in \<open>s\<close>.\<close>

fun contains :: "string \<Rightarrow> string \<Rightarrow> bool" where
  "contains [] sub = (sub = [])"
| "contains (c # cs) sub = (startswith (c # cs) sub \<or> contains cs sub)"

text \<open>An identifier without the delimiters and without the two texts that the token
  encoding removes.\<close>

definition good_identifier :: "string \<Rightarrow> bool" where
  "good_identifier i =
     (CHR ''>'' \<notin> set i \<and> CHR ''<'' \<notin> set i
      \<and> \<not> contains i ''_rpy'' \<and> \<not> contains i ''.rpyx'')"

text \<open>The paths of the files opened for writing, and of those opened for reading, in
  the order of the events.\<close>

fun written :: "event list \<Rightarrow> string list" where
  "written [] = []"
| "written (OpenWrite p c # es) = p # written es"
| "written (e # es) = written es"

fun reads :: "event list \<Rightarrow> string list" where
  "reads [] = []"
| "reads (OpenRead p # es) = p # reads es"
| "reads (e # es) = reads es"

text \<open>What \<^verbatim>\<open>searchLinks\<close> does on its own file once the file is read: the first
  loop, the count, the trace. It returns the state and \<^verbatim>\<open>listNewRpyxToSearchLinks\<close>.\<close>

definition own_step :: "nat \<Rightarrow> (string \<times> nat) list \<Rightarrow> state \<Rightarrow> state \<times> nat list" where
  "own_step self linked st1 =
     (let (st2, listNew) = foldl (index_link self) (st1, []) linked;
          st3 = prepareAndCountReplacements self st2;
          st4 = trace self st3
      in (st4, listNew))"

text \<open>What every step of the discovery keeps: the file system, the write counter and
  the cap; instances, events and index entries are only added, no added event opens a
  file for writing, the path and the existence flag of an instance never change, and
  the existence flag of a new instance is what the file system says of its path. The
  last part says it for every address: a flag that is set either was set before, for
  the same path, or is the file system's answer.\<close>

definition extends :: "state \<Rightarrow> state \<Rightarrow> bool" where
  "extends st st' =
     (cwd st' = cwd st \<and> fs st' = fs st
      \<and> updatedFileCount (strategy st') = updatedFileCount (strategy st)
      \<and> maxFileToUpdate (strategy st') = maxFileToUpdate (strategy st)
      \<and> nextId st \<le> nextId st'
      \<and> (\<exists>evs. events st' = events st @ evs \<and> written evs = [])
      \<and> (\<exists>ix. indexByAbsPath st' = indexByAbsPath st @ ix)
      \<and> (\<forall>j < nextId st. absPath (heap st' j) = absPath (heap st j)
                          \<and> exists (heap st' j) = exists (heap st j))
      \<and> (\<forall>j. nextId st \<le> j \<and> j < nextId st'
               \<longrightarrow> exists (heap st' j) = fs_exists (fs st) (absPath (heap st' j)))
      \<and> (\<forall>j. exists (heap st' j)
               \<longrightarrow> (exists (heap st j) \<and> absPath (heap st' j) = absPath (heap st j))
                   \<or> fs_exists (fs st) (absPath (heap st' j))))"

section \<open>Concrete file sets\<close>

text \<open>A file system holding the listed files, each with its text; every file can be
  written.\<close>

definition fs_of :: "(string \<times> string) list \<Rightarrow> filesystem" where
  "fs_of files = \<lparr>fs_exists = (\<lambda>p. map_of files p \<noteq> None), fs_read = map_of files,
                  fs_writable = (\<lambda>p. True)\<rparr>"

definition text_lines :: "string list \<Rightarrow> string" where
  "text_lines ls = join_sep [newline] ls"

text \<open>The seed \<^verbatim>\<open>/proj/A.rpyx\<close> refers to \<^verbatim>\<open>/proj/sub/X.rpyx\<close>, which refers to
  nothing.\<close>

definition files_scenario :: "(string \<times> string) list" where
  "files_scenario =
     [(''/proj/A.rpyx'', ''<a>/proj/sub/X_rpy</a>''),
      (''/proj/sub/X.rpyx'', ''<x>no link</x>'')]"

text \<open>\<^verbatim>\<open>A\<close> refers to \<^verbatim>\<open>B\<close> and \<^verbatim>\<open>B\<close> refers to \<^verbatim>\<open>A\<close>.\<close>

definition files_cycle :: "(string \<times> string) list" where
  "files_cycle =
     [(''/proj/A.rpyx'', ''<a>/proj/B_rpy</a>''),
      (''/proj/B.rpyx'', ''<b>/proj/A_rpy</b>'')]"

text \<open>\<^verbatim>\<open>A\<close> holds two tokens, on two lines, that both resolve to \<^verbatim>\<open>A\<close> itself.\<close>

definition files_self :: "(string \<times> string) list" where
  "files_self =
     [(''/proj/A.rpyx'', text_lines [''<a>/proj/A_rpy</a>'', ''<a>/proj/./A_rpy</a>''])]"

text \<open>\<^verbatim>\<open>A\<close> refers to \<^verbatim>\<open>/proj/X.rpyx\<close>, which exists, and to \<^verbatim>\<open>/proj/x.rpyx\<close>,
  which does not.\<close>

definition files_case :: "(string \<times> string) list" where
  "files_case =
     [(''/proj/A.rpyx'', text_lines [''<a>/proj/X_rpy</a>'', ''<a>/proj/x_rpy</a>'']),
      (''/proj/X.rpyx'', ''<x>no link</x>'')]"

section \<open>Vocabulary of the invariants\<close>

text \<open>A step from \<open>st\<close> to \<open>st'\<close> touches only the instances in \<open>S\<close> among those
  that exist in \<open>st\<close>.\<close>

definition touches :: "nat set \<Rightarrow> state \<Rightarrow> state \<Rightarrow> bool" where
  "touches S st st' =
     (nextId st \<le> nextId st' \<and> (\<forall>j < nextId st. j \<notin> S \<longrightarrow> heap st' j = heap st j))"

text \<open>Nothing but the store of instances (and its next address) differs.\<close>

definition unchanged_but_heap :: "state \<Rightarrow> state \<Rightarrow> bool" where
  "unchanged_but_heap st st' =
     (strategy st' = strategy st \<and> events st' = events st
      \<and> indexByAbsPath st' = indexByAbsPath st \<and> fs st' = fs st \<and> cwd st' = cwd st)"

text \<open>What the first loop of \<^verbatim>\<open>searchLinks\<close>, the count and the trace leave alone:
  every instance but the file's own, the own path, flag and text, and the files read and
  written so far.\<close>

definition indexing :: "nat \<Rightarrow> state \<Rightarrow> state \<Rightarrow> bool" where
  "indexing self st st' =
     (nextId st' = nextId st \<and> fs st' = fs st \<and> cwd st' = cwd st
      \<and> updatedFileCount (strategy st') = updatedFileCount (strategy st)
      \<and> maxFileToUpdate (strategy st') = maxFileToUpdate (strategy st)
      \<and> (\<forall>j. j \<noteq> self \<longrightarrow> heap st' j = heap st j)
      \<and> absPath (heap st' self) = absPath (heap st self)
      \<and> exists (heap st' self) = exists (heap st self)
      \<and> fileContent (heap st' self) = fileContent (heap st self)
      \<and> reads (events st') = reads (events st)
      \<and> written (events st') = written (events st))"

text \<open>The links, and the replacements, of every instance whose text has been read:
  \<open>fileContent\<close> is set by \<^verbatim>\<open>getLinkedRpyx\<close> alone.\<close>

definition tally_links :: "state \<Rightarrow> int" where
  "tally_links st =
     (\<Sum>j<nextId st. if fileContent (heap st j) = None then 0
                       else int (length (linksDico (heap st j))))"

definition tally_replacements :: "state \<Rightarrow> int" where
  "tally_replacements st =
     (\<Sum>j<nextId st. if fileContent (heap st j) = None then 0
                       else int (length (replacementsDico (heap st j))))"

definition tallied :: "state \<Rightarrow> bool" where
  "tallied st = (linkCount (strategy st) = tally_links st
                 \<and> replacementCount (strategy st) = tally_replacements st)"

text \<open>An instance flagged as existing has a path that exists; every file read exists;
  an instance is ready to be searched when it is allocated, unread and flagged as
  existing.\<close>

definition heap_ok :: "state \<Rightarrow> bool" where
  "heap_ok st = (\<forall>j. exists (heap st j) \<longrightarrow> fs_exists (fs st) (absPath (heap st j)))"

definition reads_ok :: "state \<Rightarrow> bool" where
  "reads_ok st = (\<forall>p \<in> set (reads (events st)). fs_exists (fs st) p)"

definition ready :: "state \<Rightarrow> nat \<Rightarrow> bool" where
  "ready st x = (x < nextId st \<and> fileContent (heap st x) = None \<and> exists (heap st x))"

text \<open>The invariant of the discovery phase.\<close>

definition consistent :: "state \<Rightarrow> bool" where
  "consistent st = (tallied st \<and> heap_ok st \<and> reads_ok st)"

text \<open>The apply phase: the number of writes the cap still allows, and what a step of
  the phase keeps. \<open>applied_ret\<close> adds, for a step that returns, that each write is paid
  from the budget.\<close>

definition budget :: "state \<Rightarrow> nat" where
  "budget st = nat (maxFileToUpdate (strategy st) - updatedFileCount (strategy st))"

definition applied :: "state \<Rightarrow> state \<Rightarrow> bool" where
  "applied st st' =
     (heap st' = heap st \<and> nextId st' = nextId st \<and> cwd st' = cwd st
      \<and> indexByAbsPath st' = indexByAbsPath st
      \<and> linkCount (strategy st') = linkCount (strategy st)
      \<and> replacementCount (strategy st') = replacementCount (strategy st)
      \<and> fileUpdatedCount (strategy st') = fileUpdatedCount (strategy st)
      \<and> maxFileToUpdate (strategy st') = maxFileToUpdate (strategy st)
      \<and> fs_exists (fs st') = fs_exists (fs st)
      \<and> (\<exists>evs. events st' = events st @ evs \<and> reads evs = []
            \<and> length (written evs) \<le> budget st
            \<and> (\<forall>p \<in> set (written evs). fs_exists (fs st) p)
            \<and> (\<forall>p. p \<notin> set (written evs) \<longrightarrow> fs_read (fs st') p = fs_read (fs st) p)))"

definition applied_ret :: "state \<Rightarrow> state \<Rightarrow> bool" where
  "applied_ret st st' =
     (applied st st'
      \<and> (\<exists>evs. events st' = events st @ evs \<and> length (written evs) + budget st' \<le> budget st))"

(*PROPERTIES*)

section \<open>Dictionaries\<close>

lemma dict_set_map_fst:
  "map fst (dict_set d k v) = (if k \<in> set (map fst d) then map fst d else map fst d @ [k])"
  by (induction d) force+

lemma dict_set_keys: "fst ` set (dict_set d k v) = insert k (fst ` set d)"
proof -
  have "set (map fst (dict_set d k v)) = insert k (set (map fst d))"
    unfolding dict_set_map_fst by auto
  then show ?thesis by simp
qed

lemma foldl_dict_set_keys:
  "fst ` set (foldl (\<lambda>d x. dict_set d (f x) (g x)) d0 xs) = fst ` set d0 \<union> f ` set xs"
  by (induction xs arbitrary: d0) (auto simp: dict_set_keys)

section \<open>Decoding a token and encoding it again\<close>

lemma list_cases4:
  obtains "cs = []" | a where "cs = [a]" | a b where "cs = [a, b]"
    | a b c where "cs = [a, b, c]" | a b c d ds where "cs = a # b # c # d # ds"
proof (cases cs)
  case Nil then show ?thesis using that by simp
next
  case c1: (Cons a as)
  show ?thesis
  proof (cases as)
    case Nil then show ?thesis using that c1 by simp
  next
    case c2: (Cons b bs)
    show ?thesis
    proof (cases bs)
      case Nil then show ?thesis using that c1 c2 by simp
    next
      case c3: (Cons c cs')
      show ?thesis
      proof (cases cs')
        case Nil then show ?thesis using that c1 c2 c3 by simp
      next
        case (Cons d ds) then show ?thesis using that c1 c2 c3 by simp
      qed
    qed
  qed
qed

lemma lstrip_token:
  "CHR ''>'' \<notin> set i \<Longrightarrow> lstrip (CHR ''>'') (''>'' @ i @ ''_rpy<'') = i @ ''_rpy<''"
  by (cases i) (auto simp: lstrip_def)

lemma rstrip_token: "rstrip (CHR ''<'') (i @ ''_rpy<'') = i @ ''_rpy''"
  by (simp add: rstrip_def)

text \<open>No occurrence of the removed text starts inside the identifier and ends in the
  appended suffix: the text has no proper prefix that is also a suffix of it.\<close>

lemma straddle_rpy:
  "startswith (c # cs @ ''_rpy'') ''_rpy'' \<Longrightarrow> startswith (c # cs) ''_rpy''"
  by (cases cs rule: list_cases4) auto

lemma replace_first_rpy:
  "\<not> contains i ''_rpy'' \<Longrightarrow> replace_first ''_rpy'' [] (i @ ''_rpy'') = i"
proof (induction i)
  case Nil
  then show ?case by simp
next
  case (Cons c cs)
  from Cons.prems have a: "\<not> startswith (c # cs) ''_rpy''" and b: "\<not> contains cs ''_rpy''"
    by auto
  from a straddle_rpy have "\<not> startswith (c # cs @ ''_rpy'') ''_rpy''" by blast
  then show ?case using Cons.IH[OF b] by (simp del: startswith.simps)
qed

lemma straddle_rpyx:
  "startswith (c # cs @ ''.rpyx'') ''.rpyx'' \<Longrightarrow> startswith (c # cs) ''.rpyx''"
  by (cases cs rule: list_cases4) auto

lemma replace_first_rpyx:
  "\<not> contains i ''.rpyx'' \<Longrightarrow> replace_first ''.rpyx'' [] (i @ ''.rpyx'') = i"
proof (induction i)
  case Nil
  then show ?case by simp
next
  case (Cons c cs)
  from Cons.prems have a: "\<not> startswith (c # cs) ''.rpyx''" and b: "\<not> contains cs ''.rpyx''"
    by auto
  from a straddle_rpyx have "\<not> startswith (c # cs @ ''.rpyx'') ''.rpyx''" by blast
  then show ?case using Cons.IH[OF b] by (simp del: startswith.simps)
qed

lemma matchToRpyx_token:
  assumes "good_identifier i"
  shows "matchToRpyx (''>'' @ i @ ''_rpy<'') = i @ ''.rpyx''"
proof -
  from assms have a: "CHR ''>'' \<notin> set i" and b: "\<not> contains i ''_rpy''"
    by (simp_all add: good_identifier_def)
  show ?thesis
    unfolding matchToRpyx_def lstrip_token[OF a] rstrip_token replace_first_rpy[OF b] ..
qed

lemma rpyxToMatch_decoded:
  assumes "good_identifier i"
  shows "rpyxToMatch (i @ ''.rpyx'') = ''>'' @ i @ ''_rpy<''"
proof -
  from assms have b: "\<not> contains i ''.rpyx''"
    by (simp add: good_identifier_def)
  show ?thesis
    unfolding rpyxToMatch_def replace_first_rpyx[OF b] ..
qed

lemma prepareReplacements_keys:
  "fst ` set (replacementsDico (heap (prepareReplacements self st) self))
     = rpyxToMatch ` {l \<in> fst ` set (linksDico (heap st self)). isabs l}"
  by (auto simp: prepareReplacements_def set_obj_def Let_def foldl_dict_set_keys)

text \<open>
  Claim C10. For an identifier that contains neither \<^verbatim>\<open>>\<close> nor \<^verbatim>\<open><\<close> and neither
  \<^verbatim>\<open>_rpy\<close> nor \<^verbatim>\<open>.rpyx\<close>, decoding the token \<^verbatim>\<open>>\<close> + identifier + \<^verbatim>\<open>_rpy<\<close> with
  \<open>matchToRpyx\<close> and encoding the result with \<open>rpyxToMatch\<close> gives the token back.
  Consequently, when the keys of a file's link map are the decoded forms of such tokens,
  the old-token keys that \<open>prepareReplacements\<close> stores are raw tokens of the file: they
  are exactly the tokens whose decoded reference is absolute.
\<close>

theorem token_roundtrip:
  assumes "\<forall>t \<in> set toks. \<exists>i. good_identifier i \<and> t = ''>'' @ i @ ''_rpy<''"
    and "map fst (linksDico (heap st self)) = map matchToRpyx toks"
  shows "(\<forall>t \<in> set toks. rpyxToMatch (matchToRpyx t) = t)
       \<and> fst ` set (replacementsDico (heap (prepareReplacements self st) self))
           = {t \<in> set toks. isabs (matchToRpyx t)}"
proof -
  have rt: "rpyxToMatch (matchToRpyx t) = t" if "t \<in> set toks" for t
    using assms(1) that matchToRpyx_token rpyxToMatch_decoded by metis
  have "fst ` set (linksDico (heap st self)) = matchToRpyx ` set toks"
    using assms(2) by (metis list.set_map)
  then have "fst ` set (replacementsDico (heap (prepareReplacements self st) self))
     = rpyxToMatch ` {l \<in> matchToRpyx ` set toks. isabs l}"
    by (simp add: prepareReplacements_keys)
  also have "\<dots> = {t \<in> set toks. isabs (matchToRpyx t)}"
    using rt by force
  finally show ?thesis using rt by blast
qed

theorem token_roundtrip_witness:
  "good_identifier ''/proj/sub/X'' \<and> good_identifier ''rel/Y''
   \<and> map fst (linksDico (heap
         (set_obj 0 (blank\<lparr>absPath := ''/proj/A.rpyx'',
                           linksDico := [(''/proj/sub/X.rpyx'', 1), (''rel/Y.rpyx'', 2)]\<rparr>)
            (init_state ''/proj'' \<lparr>fs_exists = (\<lambda>p. False), fs_read = (\<lambda>p. None),
                                    fs_writable = (\<lambda>p. False)\<rparr> 0)) 0))
       = map matchToRpyx [''>/proj/sub/X_rpy<'', ''>rel/Y_rpy<'']
   \<and> rpyxToMatch (matchToRpyx ''>/proj/sub/X_rpy<'') = ''>/proj/sub/X_rpy<''
   \<and> rpyxToMatch (matchToRpyx ''>rel/Y_rpy<'') = ''>rel/Y_rpy<''
   \<and> fst ` set (replacementsDico (heap (prepareReplacements 0
         (set_obj 0 (blank\<lparr>absPath := ''/proj/A.rpyx'',
                           linksDico := [(''/proj/sub/X.rpyx'', 1), (''rel/Y.rpyx'', 2)]\<rparr>)
            (init_state ''/proj'' \<lparr>fs_exists = (\<lambda>p. False), fs_read = (\<lambda>p. None),
                                    fs_writable = (\<lambda>p. False)\<rparr> 0))) 0))
       = {''>/proj/sub/X_rpy<''}"
proof -
  let ?toks = "[''>/proj/sub/X_rpy<'', ''>rel/Y_rpy<'']"
  let ?st = "set_obj 0 (blank\<lparr>absPath := ''/proj/A.rpyx'',
                           linksDico := [(''/proj/sub/X.rpyx'', 1), (''rel/Y.rpyx'', 2)]\<rparr>)
            (init_state ''/proj'' \<lparr>fs_exists = (\<lambda>p. False), fs_read = (\<lambda>p. None),
                                    fs_writable = (\<lambda>p. False)\<rparr> 0)"
  have g1: "good_identifier ''/proj/sub/X''" and g2: "good_identifier ''rel/Y''"
    by (simp_all add: good_identifier_def)
  have h1: "\<forall>t \<in> set ?toks. \<exists>i. good_identifier i \<and> t = ''>'' @ i @ ''_rpy<''"
  proof -
    have "good_identifier ''/proj/sub/X'' \<and> ''>/proj/sub/X_rpy<'' = ''>'' @ ''/proj/sub/X'' @ ''_rpy<''"
      using g1 by simp
    moreover have "good_identifier ''rel/Y'' \<and> ''>rel/Y_rpy<'' = ''>'' @ ''rel/Y'' @ ''_rpy<''"
      using g2 by simp
    ultimately show ?thesis by (metis empty_iff empty_set set_ConsD)
  qed
  have m: "map matchToRpyx ?toks = [''/proj/sub/X.rpyx'', ''rel/Y.rpyx'']"
    by (simp add: matchToRpyx_def lstrip_def rstrip_def)
  have h2: "map fst (linksDico (heap ?st 0)) = map matchToRpyx ?toks"
    unfolding m by (simp add: set_obj_def)
  have a: "{t \<in> set ?toks. isabs (matchToRpyx t)} = {''>/proj/sub/X_rpy<''}"
    by (auto simp: matchToRpyx_def lstrip_def rstrip_def isabs_def)
  from token_roundtrip[OF h1 h2] g1 g2 h2 a show ?thesis by simp
qed

section \<open>The discovery phase only adds\<close>

lemma written_append: "written (xs @ ys) = written xs @ written ys"
  by (induction xs rule: written.induct) auto

lemma reads_append: "reads (xs @ ys) = reads xs @ reads ys"
  by (induction xs rule: reads.induct) auto

lemma searchLinks_Suc:
  "searchLinks (Suc n) self d st =
     (case getLinkedRpyx self st of
        Raised e st' \<Rightarrow> Some (Raised e st')
      | Returned linked st1 \<Rightarrow>
          (case own_step self linked st1 of
             (st4, listNew) \<Rightarrow>
               if d \<noteq> 0 then search_new n listNew (d - 1) st4 else Some (Returned () st4)))"
  by (simp add: own_step_def Let_def split: outcome.splits prod.splits)

lemma extends_refl: "extends st st"
  by (auto simp: extends_def)

lemma extends_trans:
  assumes ab: "extends a b" and bc: "extends b c"
  shows "extends a c"
proof -
  from ab obtain e1 i1 where a:
    "cwd b = cwd a" "fs b = fs a"
    "updatedFileCount (strategy b) = updatedFileCount (strategy a)"
    "maxFileToUpdate (strategy b) = maxFileToUpdate (strategy a)"
    "nextId a \<le> nextId b"
    "events b = events a @ e1" "written e1 = []"
    "indexByAbsPath b = indexByAbsPath a @ i1"
    "\<forall>j < nextId a. absPath (heap b j) = absPath (heap a j)
                     \<and> exists (heap b j) = exists (heap a j)"
    "\<forall>j. nextId a \<le> j \<and> j < nextId b
          \<longrightarrow> exists (heap b j) = fs_exists (fs a) (absPath (heap b j))"
    "\<forall>j. exists (heap b j)
          \<longrightarrow> (exists (heap a j) \<and> absPath (heap b j) = absPath (heap a j))
              \<or> fs_exists (fs a) (absPath (heap b j))"
    unfolding extends_def by blast
  from bc obtain e2 i2 where b:
    "cwd c = cwd b" "fs c = fs b"
    "updatedFileCount (strategy c) = updatedFileCount (strategy b)"
    "maxFileToUpdate (strategy c) = maxFileToUpdate (strategy b)"
    "nextId b \<le> nextId c"
    "events c = events b @ e2" "written e2 = []"
    "indexByAbsPath c = indexByAbsPath b @ i2"
    "\<forall>j < nextId b. absPath (heap c j) = absPath (heap b j)
                     \<and> exists (heap c j) = exists (heap b j)"
    "\<forall>j. nextId b \<le> j \<and> j < nextId c
          \<longrightarrow> exists (heap c j) = fs_exists (fs b) (absPath (heap c j))"
    "\<forall>j. exists (heap c j)
          \<longrightarrow> (exists (heap b j) \<and> absPath (heap c j) = absPath (heap b j))
              \<or> fs_exists (fs b) (absPath (heap c j))"
    unfolding extends_def by blast
  have ev: "events c = events a @ (e1 @ e2) \<and> written (e1 @ e2) = []"
    using a(6,7) b(6,7) by (simp add: written_append)
  have ix: "indexByAbsPath c = indexByAbsPath a @ (i1 @ i2)"
    using a(8) b(8) by simp
  have old: "\<forall>j < nextId a. absPath (heap c j) = absPath (heap a j)
                     \<and> exists (heap c j) = exists (heap a j)"
    using a(5,9) b(9) by auto
  have new: "\<forall>j. nextId a \<le> j \<and> j < nextId c
          \<longrightarrow> exists (heap c j) = fs_exists (fs a) (absPath (heap c j))"
  proof (intro allI impI)
    fix j assume j: "nextId a \<le> j \<and> j < nextId c"
    show "exists (heap c j) = fs_exists (fs a) (absPath (heap c j))"
    proof (cases "j < nextId b")
      case True
      with j a(10) b(9) show ?thesis by simp
    next
      case False
      with j b(10) a(2) show ?thesis by simp
    qed
  qed
  have any: "\<forall>j. exists (heap c j)
          \<longrightarrow> (exists (heap a j) \<and> absPath (heap c j) = absPath (heap a j))
              \<or> fs_exists (fs a) (absPath (heap c j))"
  proof (intro allI impI)
    fix j assume e: "exists (heap c j)"
    with b(11) have "(exists (heap b j) \<and> absPath (heap c j) = absPath (heap b j))
              \<or> fs_exists (fs b) (absPath (heap c j))" by blast
    then show "(exists (heap a j) \<and> absPath (heap c j) = absPath (heap a j))
              \<or> fs_exists (fs a) (absPath (heap c j))"
    proof
      assume 1: "exists (heap b j) \<and> absPath (heap c j) = absPath (heap b j)"
      with a(11) have "(exists (heap a j) \<and> absPath (heap b j) = absPath (heap a j))
              \<or> fs_exists (fs a) (absPath (heap b j))" by blast
      with 1 show ?thesis by auto
    next
      assume "fs_exists (fs b) (absPath (heap c j))"
      with a(2) show ?thesis by simp
    qed
  qed
  show ?thesis
    unfolding extends_def
  proof (intro conjI)
    show "\<forall>j. exists (heap c j)
          \<longrightarrow> (exists (heap a j) \<and> absPath (heap c j) = absPath (heap a j))
              \<or> fs_exists (fs a) (absPath (heap c j))" by (rule any)
    show "cwd c = cwd a" using a(1) b(1) by simp
    show "fs c = fs a" using a(2) b(2) by simp
    show "updatedFileCount (strategy c) = updatedFileCount (strategy a)"
      using a(3) b(3) by simp
    show "maxFileToUpdate (strategy c) = maxFileToUpdate (strategy a)"
      using a(4) b(4) by simp
    show "nextId a \<le> nextId c" using a(5) b(5) by simp
    show "\<exists>evs. events c = events a @ evs \<and> written evs = []" using ev by blast
    show "\<exists>ix. indexByAbsPath c = indexByAbsPath a @ ix" using ix by blast
    show "\<forall>j < nextId a. absPath (heap c j) = absPath (heap a j)
                     \<and> exists (heap c j) = exists (heap a j)" by (rule old)
    show "\<forall>j. nextId a \<le> j \<and> j < nextId c
          \<longrightarrow> exists (heap c j) = fs_exists (fs a) (absPath (heap c j))" by (rule new)
  qed
qed

lemma dict_set_absent: "map_of d k = None \<Longrightarrow> dict_set d k v = d @ [(k, v)]"
  by (induction d) (auto split: if_splits)

lemma extends_log: "extends st (log lv msg st)"
  by (auto simp: extends_def log_def)

lemma extends_RhpRpyx_init: "extends st (snd (RhpRpyx_init path st))"
  by (auto simp: extends_def RhpRpyx_init_def set_obj_def Let_def)

lemma extends_build_links: "extends st (snd (build_links self ls d st))"
proof (induction ls arbitrary: d st)
  case Nil
  then show ?case by (simp add: extends_refl)
next
  case (Cons l ls)
  show ?case
    using extends_trans[OF extends_RhpRpyx_init Cons.IH]
    by (simp add: Let_def split: prod.splits) (metis snd_conv)
qed

lemma extends_getLinkedRpyx: "extends st (final (getLinkedRpyx self st))"
proof (cases "fs_read (fs st) (absPath (heap st self))")
  case None
  then show ?thesis
    by (auto simp: getLinkedRpyx_def Let_def emit_def log_def extends_def)
next
  case (Some content)
  let ?st2 = "set_obj self ((heap (emit (OpenRead (absPath (heap st self))) st) self)\<lparr>fileContent := Some content\<rparr>)
                 (emit (OpenRead (absPath (heap st self))) st)"
  have a: "extends st ?st2"
    by (auto simp: extends_def emit_def set_obj_def)
  have b: "final (getLinkedRpyx self st) = snd (build_links self (map matchToRpyx (findall content)) [] ?st2)"
    using Some by (simp add: getLinkedRpyx_def Let_def emit_def split: prod.splits)
  show ?thesis unfolding b using extends_trans[OF a extends_build_links] .
qed

lemma extends_linkRpyx: "extends st (linkRpyx self k v st)"
  by (auto simp: extends_def linkRpyx_def set_obj_def)

lemma extends_addIndexedRhpyx: "extends st (addIndexedRhpyx x st)"
  by (auto simp: extends_def addIndexedRhpyx_def Let_def log_def dict_set_absent)

lemma extends_index_link: "extends (fst acc) (fst (index_link self acc x))"
  unfolding index_link_def Let_def
  by (auto intro: extends_linkRpyx extends_trans[OF extends_linkRpyx extends_addIndexedRhpyx])

lemma extends_index_links: "extends (fst acc) (fst (foldl (index_link self) acc xs))"
proof (induction xs arbitrary: acc)
  case Nil
  then show ?case by (simp add: extends_refl)
next
  case (Cons x xs)
  show ?case using extends_trans[OF extends_index_link Cons.IH] by simp
qed

lemma extends_prepareAndCount: "extends st (prepareAndCountReplacements self st)"
  by (auto simp: extends_def prepareAndCountReplacements_def prepareReplacements_def set_obj_def Let_def)

lemma written_trace_lines: "written (map (trace_line r st) xs) = []"
  by (induction xs) (simp_all add: trace_line_def Let_def)

lemma reads_trace_lines: "reads (map (trace_line r st) xs) = []"
  by (induction xs) (simp_all add: trace_line_def Let_def)

lemma extends_trace: "extends st (trace self st)"
  by (auto simp: extends_def trace_def log_def Let_def written_append written_trace_lines)

lemma extends_own_step: "extends st (fst (own_step self linked st))"
proof -
  obtain st2 listNew where f: "foldl (index_link self) (st, []) linked = (st2, listNew)"
    by (cases "foldl (index_link self) (st, []) linked")
  have a: "extends st st2" using extends_index_links[of "(st, [])" self linked] f by simp
  have "fst (own_step self linked st) = trace self (prepareAndCountReplacements self st2)"
    by (simp add: own_step_def f Let_def)
  then show ?thesis
    using extends_trans[OF a extends_trans[OF extends_prepareAndCount extends_trace]] by simp
qed

lemma extends_search_new_step:
  assumes P: "\<And>oid d st out. searchLinks n oid d st = Some out \<Longrightarrow> extends st (final out)"
  shows "search_new n xs d st = Some out \<Longrightarrow> extends st (final out)"
proof (induction xs arbitrary: st)
  case Nil
  then show ?case by (auto simp: extends_refl)
next
  case (Cons x xs)
  show ?case
  proof (cases "searchLinks n x d st")
    case None
    with Cons.prems show ?thesis by simp
  next
    case (Some o1)
    show ?thesis
    proof (cases o1)
      case (Returned u st1)
      with Some Cons.prems have "search_new n xs d st1 = Some out" by simp
      from Cons.IH[OF this] P[OF Some] Returned show ?thesis
        by (auto intro: extends_trans)
    next
      case (Raised e st1)
      with Some Cons.prems P[OF Some] show ?thesis by auto
    qed
  qed
qed

lemma extends_searchLinks: "searchLinks n oid d st = Some out \<Longrightarrow> extends st (final out)"
proof (induction n arbitrary: oid d st out)
  case 0
  then show ?case by simp
next
  case (Suc n)
  have Q: "\<And>xs d st out. search_new n xs d st = Some out \<Longrightarrow> extends st (final out)"
    by (rule extends_search_new_step) (rule Suc.IH)
  show ?case
  proof (cases "getLinkedRpyx oid st")
    case (Raised e st1)
    with Suc.prems extends_getLinkedRpyx[of st oid] show ?thesis
      unfolding searchLinks_Suc by auto
  next
    case (Returned linked st1)
    obtain st4 listNew where o: "own_step oid linked st1 = (st4, listNew)"
      by (cases "own_step oid linked st1")
    have a: "extends st st1" using extends_getLinkedRpyx[of st oid] Returned by simp
    have b: "extends st1 st4" using extends_own_step[of st1 oid linked] o by simp
    show ?thesis
    proof (cases "d = 0")
      case True
      with Suc.prems Returned o have "out = Returned () st4" unfolding searchLinks_Suc by simp
      then show ?thesis using extends_trans[OF a b] by simp
    next
      case False
      with Suc.prems Returned o have "search_new n listNew (d - 1) st4 = Some out"
        unfolding searchLinks_Suc by simp
      from Q[OF this] show ?thesis using extends_trans[OF a b] extends_trans by blast
    qed
  qed
qed

lemma extends_search_new: "search_new n xs d st = Some out \<Longrightarrow> extends st (final out)"
  by (rule extends_search_new_step) (rule extends_searchLinks)

lemma update_seeds_Cons:
  "update_seeds fuel (p # ps) st =
     (case RhpRpyx_init p
             (log INFO (''Apply 'RelativePathReplacementStrategy' to file '' @ p) st) of
        (r, st2) \<Rightarrow>
          if \<not> exists (heap st2 r) then
            update_seeds fuel ps (log WARNING (absPath (heap st2 r) @ '' does not exist'') st2)
          else
            (case searchLinks fuel r (- 1) st2 of
               None \<Rightarrow> None
             | Some (Raised e st') \<Rightarrow> Some (Raised e st')
             | Some (Returned u st') \<Rightarrow> update_seeds fuel ps st'))"
  by (simp add: Let_def split: prod.splits)

lemma extends_update_seeds: "update_seeds fuel seeds st = Some out \<Longrightarrow> extends st (final out)"
proof (induction seeds arbitrary: st)
  case Nil
  then show ?case by (auto simp: extends_refl)
next
  case (Cons p ps)
  let ?st1 = "log INFO (''Apply 'RelativePathReplacementStrategy' to file '' @ p) st"
  obtain r st2 where i: "RhpRpyx_init p ?st1 = (r, st2)" by (cases "RhpRpyx_init p ?st1")
  have "extends ?st1 st2" using extends_RhpRpyx_init[of ?st1 p] unfolding i by simp
  then have a: "extends st st2" by (rule extends_trans[OF extends_log])
  note u = Cons.prems[unfolded update_seeds_Cons i prod.case]
  show ?case
  proof (cases "exists (heap st2 r)")
    case False
    with u have "update_seeds fuel ps (log WARNING (absPath (heap st2 r) @ '' does not exist'') st2) = Some out"
      by simp
    from Cons.IH[OF this] have "extends (log WARNING (absPath (heap st2 r) @ '' does not exist'') st2) (final out)" .
    then have "extends st2 (final out)" by (rule extends_trans[OF extends_log])
    then show ?thesis by (rule extends_trans[OF a])
  next
    case True
    show ?thesis
    proof (cases "searchLinks fuel r (- 1) st2")
      case None
      with u True show ?thesis by simp
    next
      case (Some o1)
      show ?thesis
      proof (cases o1)
        case (Returned v st3)
        with u True Some have "update_seeds fuel ps st3 = Some out" by simp
        from Cons.IH[OF this] have b: "extends st3 (final out)" .
        from extends_searchLinks[OF Some] Returned have "extends st2 st3" by simp
        then show ?thesis using a b extends_trans by blast
      next
        case (Raised e st3)
        with u True Some have "out = Raised e st3" by simp
        with extends_searchLinks[OF Some] Raised have "extends st2 (final out)" by simp
        then show ?thesis by (rule extends_trans[OF a])
      qed
    qed
  qed
qed

section \<open>The write cap\<close>

lemma strategy_doReplacements_capped:
  assumes "maxFileToUpdate (strategy st) \<le> updatedFileCount (strategy st)"
  shows "\<exists>st' msg. strategy_doReplacements f st = Returned () st'
            \<and> fs st' = fs st \<and> events st' = events st @ [Log DEBUG msg]
            \<and> heap st' = heap st
            \<and> linkCount (strategy st') = linkCount (strategy st)
            \<and> replacementCount (strategy st') = replacementCount (strategy st)
            \<and> fileUpdatedCount (strategy st') = fileUpdatedCount (strategy st)
            \<and> maxFileToUpdate (strategy st') \<le> updatedFileCount (strategy st')"
  using assms by (auto simp: strategy_doReplacements_def Let_def log_def)

lemma apply_all_capped:
  assumes "maxFileToUpdate (strategy st) \<le> updatedFileCount (strategy st)"
  shows "\<exists>st'. apply_all xs st = Returned () st' \<and> fs st' = fs st
            \<and> written (events st') = written (events st)"
  using assms
proof (induction xs arbitrary: st)
  case Nil
  then show ?case by simp
next
  case (Cons x xs)
  from strategy_doReplacements_capped[OF Cons.prems, of x]
  obtain st1 msg where s: "strategy_doReplacements x st = Returned () st1"
    and f: "fs st1 = fs st" and e: "events st1 = events st @ [Log DEBUG msg]"
    and c: "maxFileToUpdate (strategy st1) \<le> updatedFileCount (strategy st1)" by blast
  from Cons.IH[OF c] obtain st' where "apply_all xs st1 = Returned () st'" "fs st' = fs st1"
    "written (events st') = written (events st1)" by blast
  then show ?case using s f e by (simp add: written_append)
qed

lemma extends_init_written:
  assumes "extends (init_state c fs0 k) st"
  shows "fs st = fs0 \<and> written (events st) = [] \<and> maxFileToUpdate (strategy st) = k
         \<and> updatedFileCount (strategy st) = 0"
  using assms by (auto simp: extends_def init_state_def strategy_init_def)

lemma dry_run_writes_nothing:
  assumes "k \<le> 0" and "run fuel c fs0 k seeds = Some out"
  shows "fs (final out) = fs0 \<and> written (events (final out)) = []"
proof (cases "update_seeds fuel seeds (init_state c fs0 k)")
  case None
  with assms(2) show ?thesis by (simp add: run_def update_def)
next
  case (Some o1)
  note e = extends_init_written[OF extends_update_seeds[OF Some]]
  show ?thesis
  proof (cases o1)
    case (Raised err st1)
    with Some assms(2) have "out = Raised err st1" by (simp add: run_def update_def)
    with e Raised show ?thesis by simp
  next
    case (Returned u st1)
    with Some assms(2) have o: "out = apply_all (map snd (indexByAbsPath st1)) st1"
      by (simp add: run_def update_def)
    from e Returned assms(1) have "maxFileToUpdate (strategy st1) \<le> updatedFileCount (strategy st1)"
      by simp
    from apply_all_capped[OF this, of "map snd (indexByAbsPath st1)"] o e Returned
    show ?thesis by auto
  qed
qed

section \<open>Instances, the index and the totals\<close>

lemma touches_refl: "touches S st st"
  by (simp add: touches_def)

lemma touches_trans:
  assumes "touches S a b" and "touches S' b c"
    and "\<forall>x \<in> S'. x \<in> S'' \<or> nextId a \<le> x" and "S \<subseteq> S''"
  shows "touches S'' a c"
proof -
  from assms(1,2) have n: "nextId a \<le> nextId b" "nextId b \<le> nextId c"
    by (simp_all add: touches_def)
  have "heap c j = heap a j" if j: "j < nextId a" "j \<notin> S''" for j
  proof -
    from j assms(4) have "j \<notin> S" by blast
    with j(1) assms(1) have 1: "heap b j = heap a j" by (simp add: touches_def)
    from j assms(3) have "j \<notin> S'" by (metis not_le)
    moreover from j(1) n(1) have "j < nextId b" by simp
    ultimately have "heap c j = heap b j" using assms(2) by (simp add: touches_def)
    with 1 show ?thesis by simp
  qed
  with n show ?thesis by (simp add: touches_def)
qed

lemma dict_set_sndD: "x \<in> set (dict_set d k v) \<Longrightarrow> snd x = v \<or> snd x \<in> snd ` set d"
  by (induction d) (auto split: if_splits)

lemma dict_set_snd: "set (map snd (dict_set d k v)) \<subseteq> insert v (set (map snd d))"
  using dict_set_sndD by fastforce

lemma dict_set_distinct_snd:
  "distinct (map snd d) \<Longrightarrow> v \<notin> set (map snd d) \<Longrightarrow> distinct (map snd (dict_set d k v))"
proof (induction d)
  case Nil
  then show ?case by simp
next
  case (Cons a d)
  obtain k' v' where a: "a = (k', v')" by (cases a)
  have "set (map snd (dict_set d k v)) \<subseteq> insert v (set (map snd d))" by (rule dict_set_snd)
  with Cons a show ?case by auto
qed

lemma dict_set_distinct_fst: "distinct (map fst d) \<Longrightarrow> distinct (map fst (dict_set d k v))"
  by (simp add: dict_set_map_fst)

lemma map_of_dict_set: "map_of (dict_set d k v) = (map_of d)(k \<mapsto> v)"
  by (induction d) (auto simp: fun_eq_iff)

lemma RhpRpyx_init_facts:
  assumes "RhpRpyx_init path st = (c, st')"
  shows "c = nextId st" "nextId st' = Suc (nextId st)"
    "heap st' = (heap st)(nextId st := \<lparr>absPath = abspath (cwd st) path,
        exists = fs_exists (fs st) (abspath (cwd st) path), linksDico = [],
        replacementsDico = [], fileContent = None\<rparr>)"
    "strategy st' = strategy st" "events st' = events st"
    "indexByAbsPath st' = indexByAbsPath st" "fs st' = fs st" "cwd st' = cwd st"
  using assms by (auto simp: RhpRpyx_init_def set_obj_def Let_def)

lemma build_links_facts:
  assumes "build_links self ls d st = (d', st')"
  shows "unchanged_but_heap st st'
       \<and> nextId st \<le> nextId st'
       \<and> (\<forall>j < nextId st. heap st' j = heap st j)
       \<and> (\<forall>j. nextId st \<le> j \<and> j < nextId st'
              \<longrightarrow> fileContent (heap st' j) = None \<and> linksDico (heap st' j) = []
                  \<and> replacementsDico (heap st' j) = [])
       \<and> set (map snd d') \<subseteq> set (map snd d) \<union> {nextId st ..< nextId st'}
       \<and> fst ` set d' = fst ` set d \<union> set ls
       \<and> (distinct (map fst d) \<longrightarrow> distinct (map fst d'))
       \<and> (distinct (map snd d) \<and> (\<forall>v \<in> set (map snd d). v < nextId st)
              \<longrightarrow> distinct (map snd d'))"
  using assms
proof (induction ls arbitrary: d st)
  case Nil
  then show ?case by (auto simp: unchanged_but_heap_def)
next
  case (Cons l ls)
  let ?p = "if isabs l then l else joinRelativePath self l st"
  obtain c st1 where i: "RhpRpyx_init ?p st = (c, st1)" by (cases "RhpRpyx_init ?p st")
  note f = RhpRpyx_init_facts[OF i]
  from Cons.prems i have b: "build_links self ls (dict_set d l c) st1 = (d', st')"
    by (simp add: Let_def)
  note ih = Cons.IH[OF b]
  note ih1 = ih[THEN conjunct1]
  note ih2 = ih[THEN conjunct2, THEN conjunct1]
  note ih3 = ih[THEN conjunct2, THEN conjunct2, THEN conjunct1]
  note ih4 = ih[THEN conjunct2, THEN conjunct2, THEN conjunct2, THEN conjunct1]
  note ih5 = ih[THEN conjunct2, THEN conjunct2, THEN conjunct2, THEN conjunct2, THEN conjunct1]
  note ih6 = ih[THEN conjunct2, THEN conjunct2, THEN conjunct2, THEN conjunct2, THEN conjunct2,
                THEN conjunct1]
  note ih7 = ih[THEN conjunct2, THEN conjunct2, THEN conjunct2, THEN conjunct2, THEN conjunct2,
                THEN conjunct2, THEN conjunct1]
  note ih8 = ih[THEN conjunct2, THEN conjunct2, THEN conjunct2, THEN conjunct2, THEN conjunct2,
                THEN conjunct2, THEN conjunct2]
  have u: "unchanged_but_heap st st'"
    using ih1 f(4-8) by (simp add: unchanged_but_heap_def)
  have n: "nextId st \<le> nextId st'" using ih2 f(2) by simp
  have old: "\<forall>j < nextId st. heap st' j = heap st j"
    using ih3 f(2,3) by simp
  have new: "\<forall>j. nextId st \<le> j \<and> j < nextId st'
              \<longrightarrow> fileContent (heap st' j) = None \<and> linksDico (heap st' j) = []
                  \<and> replacementsDico (heap st' j) = []"
  proof (intro allI impI)
    fix j assume j: "nextId st \<le> j \<and> j < nextId st'"
    show "fileContent (heap st' j) = None \<and> linksDico (heap st' j) = []
                  \<and> replacementsDico (heap st' j) = []"
    proof (cases "j = nextId st")
      case True
      then have "heap st' j = heap st1 j" using ih3 f(2) by simp
      then show ?thesis using f(3) True by simp
    next
      case False
      with j f(2) have "nextId st1 \<le> j \<and> j < nextId st'" by simp
      with ih4 show ?thesis by blast
    qed
  qed
  have vals: "set (map snd d') \<subseteq> set (map snd d) \<union> {nextId st ..< nextId st'}"
  proof -
    have "set (map snd d') \<subseteq> set (map snd (dict_set d l c)) \<union> {nextId st1 ..< nextId st'}"
      using ih5 by blast
    moreover have "set (map snd (dict_set d l c)) \<subseteq> insert c (set (map snd d))"
      by (rule dict_set_snd)
    moreover have "c \<in> {nextId st ..< nextId st'}" using f(1,2) ih2 by auto
    moreover have "{nextId st1 ..< nextId st'} \<subseteq> {nextId st ..< nextId st'}"
      using f(2) by auto
    ultimately show ?thesis by blast
  qed
  have keys: "fst ` set d' = fst ` set d \<union> set (l # ls)"
    using ih6 by (auto simp: dict_set_keys)
  have dk: "distinct (map fst d) \<longrightarrow> distinct (map fst d')"
    using ih7 by (simp add: dict_set_distinct_fst)
  have dv: "distinct (map snd d) \<and> (\<forall>v \<in> set (map snd d). v < nextId st)
              \<longrightarrow> distinct (map snd d')"
  proof
    assume a: "distinct (map snd d) \<and> (\<forall>v \<in> set (map snd d). v < nextId st)"
    then have "c \<notin> set (map snd d)" using f(1) by auto
    with a have 1: "distinct (map snd (dict_set d l c))" by (simp add: dict_set_distinct_snd)
    have "\<forall>v \<in> set (map snd (dict_set d l c)). v < nextId st1"
    proof
      fix v assume "v \<in> set (map snd (dict_set d l c))"
      then obtain x where "x \<in> set (dict_set d l c)" "v = snd x" by auto
      with dict_set_sndD[of x d l c] have "v = c \<or> v \<in> set (map snd d)" by auto
      with a f(1,2) show "v < nextId st1" by auto
    qed
    with 1 show "distinct (map snd d')" by (simp add: ih8)
  qed
  show ?case by (intro conjI u n old new vals keys dk dv)
qed

lemma getLinkedRpyx_Raised:
  assumes "getLinkedRpyx self st = Raised e st1"
  shows "fs_read (fs st) (absPath (heap st self)) = None"
    "heap st1 = heap st" "nextId st1 = nextId st" "strategy st1 = strategy st"
    "indexByAbsPath st1 = indexByAbsPath st" "fs st1 = fs st" "cwd st1 = cwd st"
    "reads (events st1) = reads (events st) @ [absPath (heap st self)]"
    "written (events st1) = written (events st)"
  using assms
  by (auto simp: getLinkedRpyx_def Let_def emit_def log_def set_obj_def reads_append written_append
           split: option.splits prod.splits)

lemma getLinkedRpyx_Returned:
  assumes "getLinkedRpyx self st = Returned linked st1"
  obtains content where
    "fs_read (fs st) (absPath (heap st self)) = Some content"
    "events st1 = events st @ [OpenRead (absPath (heap st self))]"
    "unchanged_but_heap (emit (OpenRead (absPath (heap st self))) st) st1"
    "nextId st \<le> nextId st1"
    "\<forall>j < nextId st. j \<noteq> self \<longrightarrow> heap st1 j = heap st j"
    "self < nextId st \<longrightarrow> heap st1 self = (heap st self)\<lparr>fileContent := Some content\<rparr>"
    "\<forall>j. nextId st \<le> j \<and> j < nextId st1
        \<longrightarrow> fileContent (heap st1 j) = None \<and> linksDico (heap st1 j) = []
            \<and> replacementsDico (heap st1 j) = []"
    "set (map snd linked) \<subseteq> {nextId st ..< nextId st1}"
    "distinct (map snd linked)" "distinct (map fst linked)"
    "fst ` set linked = matchToRpyx ` set (findall content)"
proof (cases "fs_read (fs st) (absPath (heap st self))")
  case None
  with assms show ?thesis by (simp add: getLinkedRpyx_def Let_def emit_def)
next
  case (Some content)
  let ?p = "absPath (heap st self)"
  let ?st1 = "emit (OpenRead ?p) st"
  let ?st2 = "set_obj self ((heap ?st1 self)\<lparr>fileContent := Some content\<rparr>) ?st1"
  obtain d st3 where b: "build_links self (map matchToRpyx (findall content)) [] ?st2 = (d, st3)"
    by (cases "build_links self (map matchToRpyx (findall content)) [] ?st2")
  from assms Some b have eq: "linked = d" "st1 = st3"
    by (simp_all add: getLinkedRpyx_def Let_def emit_def)
  note bf = build_links_facts[OF b]
  note b1 = bf[THEN conjunct1]
  note b2 = bf[THEN conjunct2, THEN conjunct1]
  note b3 = bf[THEN conjunct2, THEN conjunct2, THEN conjunct1]
  note b4 = bf[THEN conjunct2, THEN conjunct2, THEN conjunct2, THEN conjunct1]
  note b5 = bf[THEN conjunct2, THEN conjunct2, THEN conjunct2, THEN conjunct2, THEN conjunct1]
  note b6 = bf[THEN conjunct2, THEN conjunct2, THEN conjunct2, THEN conjunct2, THEN conjunct2,
                THEN conjunct1]
  note b7 = bf[THEN conjunct2, THEN conjunct2, THEN conjunct2, THEN conjunct2, THEN conjunct2,
                THEN conjunct2, THEN conjunct1]
  note b8 = bf[THEN conjunct2, THEN conjunct2, THEN conjunct2, THEN conjunct2, THEN conjunct2,
                THEN conjunct2, THEN conjunct2]
  have n2: "nextId ?st2 = nextId st" by (simp add: set_obj_def emit_def)
  have h2: "heap ?st2 = (heap st)(self := (heap st self)\<lparr>fileContent := Some content\<rparr>)"
    by (simp add: set_obj_def emit_def)
  have c2: "events st1 = events st @ [OpenRead ?p]"
    using b1 eq by (simp add: unchanged_but_heap_def set_obj_def emit_def)
  have c3: "unchanged_but_heap ?st1 st1"
    using b1 eq by (simp add: unchanged_but_heap_def set_obj_def emit_def)
  have c4: "nextId st \<le> nextId st1" using b2 n2 eq by simp
  have c5: "\<forall>j < nextId st. j \<noteq> self \<longrightarrow> heap st1 j = heap st j"
    using b3 n2 h2 eq by simp
  have c6: "self < nextId st \<longrightarrow> heap st1 self = (heap st self)\<lparr>fileContent := Some content\<rparr>"
    using b3 n2 h2 eq by simp
  have c7: "\<forall>j. nextId st \<le> j \<and> j < nextId st1
        \<longrightarrow> fileContent (heap st1 j) = None \<and> linksDico (heap st1 j) = []
            \<and> replacementsDico (heap st1 j) = []"
    using b4 n2 eq by simp
  have c8: "set (map snd linked) \<subseteq> {nextId st ..< nextId st1}"
    using b5 n2 eq by simp
  have c9: "distinct (map snd linked)" using b8 eq by simp
  have c10: "distinct (map fst linked)" using b7 eq by simp
  have c11: "fst ` set linked = matchToRpyx ` set (findall content)"
    using b6 eq by simp
  show ?thesis by (rule that[OF Some c2 c3 c4 c5 c6 c7 c8 c9 c10 c11])
qed

lemma indexing_refl: "indexing self st st"
  by (simp add: indexing_def)

lemma indexing_trans: "indexing self a b \<Longrightarrow> indexing self b c \<Longrightarrow> indexing self a c"
  by (simp add: indexing_def)

lemma indexing_linkRpyx: "indexing self st (linkRpyx self k v st)"
  by (simp add: indexing_def linkRpyx_def set_obj_def)

lemma indexing_addIndexedRhpyx: "indexing self st (addIndexedRhpyx x st)"
  by (simp add: indexing_def addIndexedRhpyx_def Let_def log_def reads_append written_append)

lemma indexing_index_link: "indexing self (fst acc) (fst (index_link self acc x))"
  unfolding index_link_def Let_def
  by (auto intro: indexing_linkRpyx indexing_trans[OF indexing_linkRpyx indexing_addIndexedRhpyx])

lemma indexing_index_links: "indexing self (fst acc) (fst (foldl (index_link self) acc xs))"
proof (induction xs arbitrary: acc)
  case Nil
  then show ?case by (simp add: indexing_refl)
next
  case (Cons x xs)
  show ?case using indexing_trans[OF indexing_index_link Cons.IH] by simp
qed

lemma indexing_exists: "indexing self st st' \<Longrightarrow> exists (heap st' j) = exists (heap st j)"
  by (cases "j = self") (simp_all add: indexing_def)

lemma indexing_absPath: "indexing self st st' \<Longrightarrow> absPath (heap st' j) = absPath (heap st j)"
  by (cases "j = self") (simp_all add: indexing_def)

lemma indexing_fileContent:
  "indexing self st st' \<Longrightarrow> fileContent (heap st' j) = fileContent (heap st j)"
  by (cases "j = self") (simp_all add: indexing_def)

lemma index_link_new:
  assumes "index_link self (st, new) x = (st', new')"
  shows "new' = new \<or> (new' = new @ [snd x] \<and> exists (heap st' (snd x)))"
  using assms unfolding index_link_def Let_def
  by (auto split: if_splits)

lemma index_links_new:
  assumes "foldl (index_link self) (st, new) xs = (st', new')"
    and "distinct (new @ map snd xs)" and "\<forall>v \<in> set new. exists (heap st v)"
  shows "distinct new' \<and> set new' \<subseteq> set new \<union> set (map snd xs)
         \<and> (\<forall>v \<in> set new'. exists (heap st' v))"
  using assms
proof (induction xs arbitrary: st new)
  case Nil
  then show ?case by simp
next
  case (Cons x xs)
  obtain st1 new1 where s: "index_link self (st, new) x = (st1, new1)"
    by (cases "index_link self (st, new) x")
  from Cons.prems(1) s have f: "foldl (index_link self) (st1, new1) xs = (st', new')" by simp
  from index_link_new[OF s] have n: "new1 = new \<or> (new1 = new @ [snd x] \<and> exists (heap st1 (snd x)))" .
  have i: "indexing self st st1" using indexing_index_link[of self "(st, new)" x] s by simp
  have d: "distinct (new1 @ map snd xs)" using n Cons.prems(2) by (auto simp del: set_map)
  have e: "\<forall>v \<in> set new1. exists (heap st1 v)"
    using n Cons.prems(3) indexing_exists[OF i] by auto
  from Cons.IH[OF f d e] have r: "distinct new'" "set new' \<subseteq> set new1 \<union> set (map snd xs)"
    "\<forall>v \<in> set new'. exists (heap st' v)" by blast+
  have "set new1 \<subseteq> set new \<union> {snd x}" using n by auto
  with r(2) have "set new' \<subseteq> set new \<union> set (map snd (x # xs))"
    by (auto simp del: set_map)
  with r(1,3) show ?case by blast
qed

lemma index_links_sub:
  assumes "foldl (index_link self) (st, new) xs = (st', new')"
    and "\<forall>v \<in> set new. exists (heap st v)"
  shows "set new' \<subseteq> set new \<union> set (map snd xs) \<and> (\<forall>v \<in> set new'. exists (heap st' v))"
  using assms
proof (induction xs arbitrary: st new)
  case Nil
  then show ?case by simp
next
  case (Cons x xs)
  obtain st1 new1 where s: "index_link self (st, new) x = (st1, new1)"
    by (cases "index_link self (st, new) x")
  from Cons.prems(1) s have f: "foldl (index_link self) (st1, new1) xs = (st', new')" by simp
  from index_link_new[OF s] have n: "new1 = new \<or> (new1 = new @ [snd x] \<and> exists (heap st1 (snd x)))" .
  have i: "indexing self st st1" using indexing_index_link[of self "(st, new)" x] s by simp
  have e: "\<forall>v \<in> set new1. exists (heap st1 v)"
    using n Cons.prems(2) indexing_exists[OF i] by auto
  from Cons.IH[OF f e] have r: "set new' \<subseteq> set new1 \<union> set (map snd xs)"
    "\<forall>v \<in> set new'. exists (heap st' v)" by blast+
  have "set new1 \<subseteq> set new \<union> {snd x}" using n by auto
  with r(1) have "set new' \<subseteq> set new \<union> set (map snd (x # xs))"
    by (auto simp del: set_map)
  with r(2) show ?case by blast
qed

lemma heap_ok_extends: "heap_ok st \<Longrightarrow> extends st st' \<Longrightarrow> heap_ok st'"
  unfolding heap_ok_def extends_def by metis

lemma strategy_index_link: "strategy (fst (index_link self acc x)) = strategy (fst acc)"
  by (simp add: index_link_def Let_def linkRpyx_def set_obj_def addIndexedRhpyx_def log_def)

lemma strategy_index_links: "strategy (fst (foldl (index_link self) acc xs)) = strategy (fst acc)"
  by (induction xs arbitrary: acc) (simp_all add: strategy_index_link)

lemma indexing_prepareAndCount: "indexing self st (prepareAndCountReplacements self st)"
  by (simp add: indexing_def prepareAndCountReplacements_def prepareReplacements_def
        set_obj_def Let_def)

lemma indexing_trace: "indexing self st (trace self st)"
  by (simp add: indexing_def trace_def log_def Let_def reads_append written_append
        reads_trace_lines written_trace_lines)

lemma prepareAndCount_counts:
  "linkCount (strategy (prepareAndCountReplacements self st))
     = linkCount (strategy st) + int (length (linksDico (heap st self)))"
  "replacementCount (strategy (prepareAndCountReplacements self st))
     = replacementCount (strategy st)
       + int (length (replacementsDico (heap (prepareAndCountReplacements self st) self)))"
  "linksDico (heap (prepareAndCountReplacements self st) self) = linksDico (heap st self)"
  by (simp_all add: prepareAndCountReplacements_def prepareReplacements_def set_obj_def Let_def)

lemma trace_keeps:
  "heap (trace self st) = heap st" "strategy (trace self st) = strategy st"
  "indexByAbsPath (trace self st) = indexByAbsPath st"
  by (simp_all add: trace_def log_def Let_def)

lemma own_step_facts:
  assumes "own_step self linked st1 = (st4, listNew)"
  shows "indexing self st1 st4"
    "linkCount (strategy st4)
       = linkCount (strategy st1) + int (length (linksDico (heap st4 self)))"
    "replacementCount (strategy st4)
       = replacementCount (strategy st1) + int (length (replacementsDico (heap st4 self)))"
    "distinct (map snd linked) \<Longrightarrow> distinct listNew"
    "set listNew \<subseteq> set (map snd linked)"
    "\<forall>v \<in> set listNew. exists (heap st4 v)"
proof -
  obtain st2 new where f: "foldl (index_link self) (st1, []) linked = (st2, new)"
    by (cases "foldl (index_link self) (st1, []) linked")
  let ?st3 = "prepareAndCountReplacements self st2"
  from assms f have e: "st4 = trace self ?st3" "listNew = new"
    by (simp_all add: own_step_def Let_def)
  have i2: "indexing self st1 st2" using indexing_index_links[of self "(st1, [])" linked] f by simp
  have i4: "indexing self st2 st4"
    unfolding e using indexing_trans[OF indexing_prepareAndCount indexing_trace] .
  show "indexing self st1 st4" by (rule indexing_trans[OF i2 i4])
  have s2: "strategy st2 = strategy st1"
    using strategy_index_links[of self "(st1, [])" linked] f by simp
  show "linkCount (strategy st4)
       = linkCount (strategy st1) + int (length (linksDico (heap st4 self)))"
    unfolding e by (simp add: trace_keeps prepareAndCount_counts s2)
  show "replacementCount (strategy st4)
       = replacementCount (strategy st1) + int (length (replacementsDico (heap st4 self)))"
    unfolding e by (simp add: trace_keeps prepareAndCount_counts(2) s2)
  have n: "distinct ([] @ map snd linked) \<Longrightarrow> distinct new \<and> set new \<subseteq> set [] \<union> set (map snd linked)
         \<and> (\<forall>v \<in> set new. exists (heap st2 v))"
    by (rule index_links_new[OF f]) simp_all
  show "distinct (map snd linked) \<Longrightarrow> distinct listNew" using n e by simp
  have n': "set new \<subseteq> set (map snd linked) \<and> (\<forall>v \<in> set new. exists (heap st2 v))"
  proof -
    have "set new \<subseteq> set ([] :: nat list) \<union> set (map snd linked)
         \<and> (\<forall>v \<in> set new. exists (heap st2 v))"
      using index_links_sub[OF f] by simp
    then show ?thesis by simp
  qed
  show "set listNew \<subseteq> set (map snd linked)" using n' e by simp
  show "\<forall>v \<in> set listNew. exists (heap st4 v)"
    using n' e indexing_exists[OF i4] by simp
qed

lemma touches_getLinkedRpyx: "touches {self} st (final (getLinkedRpyx self st))"
proof (cases "getLinkedRpyx self st")
  case (Raised e st1)
  from getLinkedRpyx_Raised[OF Raised] show ?thesis
    unfolding Raised by (simp add: touches_def)
next
  case (Returned linked st1)
  from Returned show ?thesis
    by (rule getLinkedRpyx_Returned) (simp add: Returned touches_def)
qed

lemma touches_own_step:
  assumes "own_step self linked st1 = (st4, listNew)"
  shows "touches {self} st1 st4"
  using own_step_facts(1)[OF assms] by (simp add: touches_def indexing_def)

lemma touches_search_new_step:
  assumes P: "\<And>oid d st out. searchLinks n oid d st = Some out \<Longrightarrow> touches {oid} st (final out)"
  shows "search_new n xs d st = Some out \<Longrightarrow> touches (set xs) st (final out)"
proof (induction xs arbitrary: st)
  case Nil
  then show ?case by (auto simp: touches_refl)
next
  case (Cons x xs)
  show ?case
  proof (cases "searchLinks n x d st")
    case None
    with Cons.prems show ?thesis by simp
  next
    case (Some o1)
    note t1 = P[OF Some]
    show ?thesis
    proof (cases o1)
      case (Returned u st1)
      with Some Cons.prems have "search_new n xs d st1 = Some out" by simp
      from Cons.IH[OF this] have t2: "touches (set xs) st1 (final out)" .
      from t1 Returned have t1': "touches {x} st st1" by simp
      show ?thesis by (rule touches_trans[OF t1' t2]) auto
    next
      case (Raised e st1)
      with Some Cons.prems have "out = Raised e st1" by simp
      with t1 Raised have "touches {x} st (final out)" by simp
      then show ?thesis by (rule touches_trans[OF _ touches_refl[of "{}"]]) auto
    qed
  qed
qed

lemma touches_searchLinks: "searchLinks n oid d st = Some out \<Longrightarrow> touches {oid} st (final out)"
proof (induction n arbitrary: oid d st out)
  case 0
  then show ?case by simp
next
  case (Suc n)
  have Q: "\<And>xs d st out. search_new n xs d st = Some out \<Longrightarrow> touches (set xs) st (final out)"
    by (rule touches_search_new_step) (rule Suc.IH)
  show ?case
  proof (cases "getLinkedRpyx oid st")
    case (Raised e st1)
    with Suc.prems have "out = Raised e st1" unfolding searchLinks_Suc by simp
    with touches_getLinkedRpyx[of oid st] Raised show ?thesis by simp
  next
    case (Returned linked st1)
    obtain st4 listNew where o: "own_step oid linked st1 = (st4, listNew)"
      by (cases "own_step oid linked st1")
    have a: "touches {oid} st st1" using touches_getLinkedRpyx[of oid st] Returned by simp
    have b: "touches {oid} st1 st4" by (rule touches_own_step[OF o])
    have ab: "touches {oid} st st4" by (rule touches_trans[OF a b]) auto
    have fresh: "set listNew \<subseteq> {nextId st ..< nextId st1}"
    proof -
      from Returned have "set (map snd linked) \<subseteq> {nextId st ..< nextId st1}"
        by (rule getLinkedRpyx_Returned)
      with own_step_facts(5)[OF o] show ?thesis by blast
    qed
    show ?thesis
    proof (cases "d = 0")
      case True
      with Suc.prems Returned o have "out = Returned () st4" unfolding searchLinks_Suc by simp
      then show ?thesis using ab by simp
    next
      case False
      with Suc.prems Returned o have "search_new n listNew (d - 1) st4 = Some out"
        unfolding searchLinks_Suc by simp
      from Q[OF this] have c: "touches (set listNew) st4 (final out)" .
      show ?thesis
      proof (rule touches_trans[OF ab c])
        show "\<forall>x\<in>set listNew. x \<in> {oid} \<or> nextId st \<le> x" using fresh by auto
      qed simp
    qed
  qed
qed

lemma touches_search_new:
  "search_new n xs d st = Some out \<Longrightarrow> touches (set xs) st (final out)"
  by (rule touches_search_new_step) (rule touches_searchLinks)

lemma sum_bump:
  fixes f g :: "nat \<Rightarrow> int"
  assumes "self < n" and "n \<le> n1" and "\<forall>j < n. j \<noteq> self \<longrightarrow> g j = f j" and "f self = 0"
    and "\<forall>j. n \<le> j \<and> j < n1 \<longrightarrow> g j = 0"
  shows "(\<Sum>j<n1. g j) = (\<Sum>j<n. f j) + g self"
proof -
  have split: "{..<n1} = {..<n} \<union> {n..<n1}" using assms(2) by auto
  have "(\<Sum>j<n1. g j) = (\<Sum>j<n. g j) + (\<Sum>j\<in>{n..<n1}. g j)"
    unfolding split by (rule sum.union_disjoint) auto
  also have "(\<Sum>j\<in>{n..<n1}. g j) = 0" using assms(5) by simp
  finally have 1: "(\<Sum>j<n1. g j) = (\<Sum>j<n. g j)" by simp
  have m: "self \<in> {..<n}" using assms(1) by simp
  have 2: "(\<Sum>j<n. g j) = g self + (\<Sum>j\<in>{..<n} - {self}. g j)"
    by (rule sum.remove[OF _ m]) simp
  have 3: "(\<Sum>j<n. f j) = f self + (\<Sum>j\<in>{..<n} - {self}. f j)"
    by (rule sum.remove[OF _ m]) simp
  have 4: "(\<Sum>j\<in>{..<n} - {self}. g j) = (\<Sum>j\<in>{..<n} - {self}. f j)"
    by (rule sum.cong) (use assms(3) in auto)
  show ?thesis using 1 2 3 4 assms(4) by simp
qed

lemma own_tallied:
  assumes t: "tallied st" and r: "self < nextId st" "fileContent (heap st self) = None"
    and g: "getLinkedRpyx self st = Returned linked st1"
    and o: "own_step self linked st1 = (st4, listNew)"
  shows "tallied st4"
proof -
  from g obtain content where
    c: "unchanged_but_heap (emit (OpenRead (absPath (heap st self))) st) st1"
      "nextId st \<le> nextId st1"
      "\<forall>j < nextId st. j \<noteq> self \<longrightarrow> heap st1 j = heap st j"
      "self < nextId st \<longrightarrow> heap st1 self = (heap st self)\<lparr>fileContent := Some content\<rparr>"
      "\<forall>j. nextId st \<le> j \<and> j < nextId st1
        \<longrightarrow> fileContent (heap st1 j) = None \<and> linksDico (heap st1 j) = []
            \<and> replacementsDico (heap st1 j) = []"
    by (rule getLinkedRpyx_Returned) blast
  note f = own_step_facts[OF o]
  from f(1) have i: "nextId st4 = nextId st1" "\<forall>j. j \<noteq> self \<longrightarrow> heap st4 j = heap st1 j"
    "fileContent (heap st4 self) = fileContent (heap st1 self)"
    by (simp_all add: indexing_def)
  have s1: "strategy st1 = strategy st" using c(1) by (simp add: unchanged_but_heap_def emit_def)
  have fc: "fileContent (heap st4 self) = Some content" using i(3) c(4) r(1) by simp
  have old: "\<forall>j < nextId st. j \<noteq> self \<longrightarrow> heap st4 j = heap st j"
    using i(2) c(3) by simp
  have new: "\<forall>j. nextId st \<le> j \<and> j < nextId st4 \<longrightarrow> fileContent (heap st4 j) = None"
  proof (intro allI impI)
    fix j assume j: "nextId st \<le> j \<and> j < nextId st4"
    with r(1) have "j \<noteq> self" by auto
    with i(2) have "heap st4 j = heap st1 j" by simp
    with j c(5) i(1) show "fileContent (heap st4 j) = None" by simp
  qed
  let ?fl = "\<lambda>s j. if fileContent (heap s j) = None then 0 else int (length (linksDico (heap s j)))"
  let ?fr = "\<lambda>s j. if fileContent (heap s j) = None then 0
                     else int (length (replacementsDico (heap s j)))"
  have n: "nextId st \<le> nextId st4" using c(2) i(1) by simp
  have "(\<Sum>j<nextId st4. ?fl st4 j) = (\<Sum>j<nextId st. ?fl st j) + ?fl st4 self"
    by (rule sum_bump[OF r(1) n]) (use old new r(2) in auto)
  then have tl: "tally_links st4 = tally_links st + int (length (linksDico (heap st4 self)))"
    using fc by (simp add: tally_links_def)
  have "(\<Sum>j<nextId st4. ?fr st4 j) = (\<Sum>j<nextId st. ?fr st j) + ?fr st4 self"
    by (rule sum_bump[OF r(1) n]) (use old new r(2) in auto)
  then have tr: "tally_replacements st4
                 = tally_replacements st + int (length (replacementsDico (heap st4 self)))"
    using fc by (simp add: tally_replacements_def)
  show ?thesis
    using t tl tr f(2,3) s1 by (simp add: tallied_def)
qed

lemma tallied_same:
  assumes "heap st' = heap st" "nextId st' = nextId st"
    "linkCount (strategy st') = linkCount (strategy st)"
    "replacementCount (strategy st') = replacementCount (strategy st)"
  shows "tallied st' = tallied st"
  unfolding tallied_def tally_links_def tally_replacements_def assms by (rule refl)

lemma inv_getLinkedRpyx_Raised:
  assumes "consistent st" and "ready st self" and "getLinkedRpyx self st = Raised e st1"
  shows "consistent st1"
proof -
  note f = getLinkedRpyx_Raised[OF assms(3)]
  have t: "tallied st1" using assms(1) tallied_same[OF f(2,3)] f(4) by (simp add: consistent_def)
  have h: "heap_ok st1" using assms(1) f(2,6) by (simp add: consistent_def heap_ok_def)
  have "fs_exists (fs st) (absPath (heap st self))"
    using assms(1,2) by (simp add: consistent_def heap_ok_def ready_def)
  then have r: "reads_ok st1" using assms(1) f(6,8) by (simp add: consistent_def reads_ok_def)
  from t h r show ?thesis by (simp add: consistent_def)
qed

lemma inv_own:
  assumes i: "consistent st" and r: "ready st self"
    and g: "getLinkedRpyx self st = Returned linked st1"
    and o: "own_step self linked st1 = (st4, listNew)"
  shows "consistent st4" "distinct listNew" "\<forall>x \<in> set listNew. ready st4 x"
proof -
  from g obtain content :: string where
    c: "events st1 = events st @ [OpenRead (absPath (heap st self))]"
      "unchanged_but_heap (emit (OpenRead (absPath (heap st self))) st) st1"
      "\<forall>j. nextId st \<le> j \<and> j < nextId st1
        \<longrightarrow> fileContent (heap st1 j) = None \<and> linksDico (heap st1 j) = []
            \<and> replacementsDico (heap st1 j) = []"
      "set (map snd linked) \<subseteq> {nextId st ..< nextId st1}"
      "distinct (map snd linked)"
    by (rule getLinkedRpyx_Returned) blast
  note f = own_step_facts[OF o]
  have e1: "extends st st1" using extends_getLinkedRpyx[of st self] g by simp
  have e4: "extends st1 st4" using extends_own_step[of st1 self linked] o by simp
  have t: "tallied st4"
    using own_tallied[OF _ _ _ g o] i r by (simp add: consistent_def ready_def)
  have h: "heap_ok st4"
    using i heap_ok_extends[OF heap_ok_extends[OF _ e1] e4] by (simp add: consistent_def)
  have fs4: "fs st4 = fs st" using e1 e4 by (simp add: extends_def)
  have "fs_exists (fs st) (absPath (heap st self))"
    using i r by (simp add: consistent_def heap_ok_def ready_def)
  moreover have "reads (events st4) = reads (events st) @ [absPath (heap st self)]"
    using f(1) c(1) by (simp add: indexing_def reads_append)
  ultimately have ro: "reads_ok st4" using i fs4 by (simp add: consistent_def reads_ok_def)
  from t h ro show "consistent st4" by (simp add: consistent_def)
  show "distinct listNew" by (rule f(4)[OF c(5)])
  show "\<forall>x \<in> set listNew. ready st4 x"
  proof
    fix x assume x: "x \<in> set listNew"
    with f(5) c(4) have "x \<in> {nextId st ..< nextId st1}" by blast
    then have b: "nextId st \<le> x \<and> x < nextId st1" by simp
    with c(3) have "fileContent (heap st1 x) = None" by blast
    then have "fileContent (heap st4 x) = None" using indexing_fileContent[OF f(1)] by simp
    moreover have "x < nextId st4" using b f(1) by (simp add: indexing_def)
    moreover have "exists (heap st4 x)" using f(6) x by blast
    ultimately show "ready st4 x" by (simp add: ready_def)
  qed
qed

lemma ready_kept:
  assumes "ready st y" and "touches S st st'" and "y \<notin> S"
  shows "ready st' y"
  using assms by (auto simp: ready_def touches_def)

lemma inv_search_new_step:
  assumes P: "\<And>oid d st out. searchLinks n oid d st = Some out \<Longrightarrow> consistent st \<Longrightarrow> ready st oid
                \<Longrightarrow> consistent (final out)"
  shows "search_new n xs d st = Some out \<Longrightarrow> consistent st \<Longrightarrow> distinct xs
           \<Longrightarrow> \<forall>x \<in> set xs. ready st x \<Longrightarrow> consistent (final out)"
proof (induction xs arbitrary: st)
  case Nil
  then show ?case by auto
next
  case (Cons x xs)
  show ?case
  proof (cases "searchLinks n x d st")
    case None
    with Cons.prems show ?thesis by simp
  next
    case (Some o1)
    have rx: "ready st x" using Cons.prems(4) by simp
    note i1 = P[OF Some Cons.prems(2) rx]
    note t1 = touches_searchLinks[OF Some]
    show ?thesis
    proof (cases o1)
      case (Returned u st1)
      with Some Cons.prems have s: "search_new n xs d st1 = Some out" by simp
      from i1 Returned have i: "consistent st1" by simp
      from t1 Returned have t: "touches {x} st st1" by simp
      have d: "distinct xs" using Cons.prems(3) by simp
      have r: "\<forall>y \<in> set xs. ready st1 y"
      proof
        fix y assume y: "y \<in> set xs"
        with Cons.prems(3) have "y \<notin> {x}" by auto
        moreover from y Cons.prems(4) have "ready st y" by simp
        ultimately show "ready st1 y" using ready_kept[OF _ t] by blast
      qed
      show ?thesis by (rule Cons.IH[OF s i d r])
    next
      case (Raised e st1)
      with Some Cons.prems have "out = Raised e st1" by simp
      with i1 Raised show ?thesis by simp
    qed
  qed
qed

lemma inv_searchLinks:
  "searchLinks n oid d st = Some out \<Longrightarrow> consistent st \<Longrightarrow> ready st oid \<Longrightarrow> consistent (final out)"
proof (induction n arbitrary: oid d st out)
  case 0
  then show ?case by simp
next
  case (Suc n)
  have Q: "\<And>xs d st out. search_new n xs d st = Some out \<Longrightarrow> consistent st \<Longrightarrow> distinct xs
           \<Longrightarrow> \<forall>x \<in> set xs. ready st x \<Longrightarrow> consistent (final out)"
    by (rule inv_search_new_step[OF Suc.IH])
  show ?case
  proof (cases "getLinkedRpyx oid st")
    case (Raised e st1)
    with Suc.prems(1) have "out = Raised e st1" unfolding searchLinks_Suc by simp
    with inv_getLinkedRpyx_Raised[OF Suc.prems(2,3) Raised] show ?thesis by simp
  next
    case (Returned linked st1)
    obtain st4 listNew where o: "own_step oid linked st1 = (st4, listNew)"
      by (cases "own_step oid linked st1")
    note f = inv_own[OF Suc.prems(2,3) Returned o]
    show ?thesis
    proof (cases "d = 0")
      case True
      with Suc.prems(1) Returned o have "out = Returned () st4" unfolding searchLinks_Suc by simp
      with f(1) show ?thesis by simp
    next
      case False
      with Suc.prems(1) Returned o have "search_new n listNew (d - 1) st4 = Some out"
        unfolding searchLinks_Suc by simp
      from Q[OF this f(1) f(2) f(3)] show ?thesis .
    qed
  qed
qed

lemma inv_init_state: "consistent (init_state c fs0 k)"
  by (simp add: consistent_def tallied_def tally_links_def tally_replacements_def heap_ok_def
        reads_ok_def init_state_def strategy_init_def blank_def)

lemma inv_log: "consistent st \<Longrightarrow> consistent (log lv msg st)"
proof -
  assume i: "consistent st"
  have "tallied (log lv msg st) = tallied st"
    by (rule tallied_same) (simp_all add: log_def)
  moreover have "heap_ok (log lv msg st) = heap_ok st"
    by (simp add: heap_ok_def log_def)
  moreover have "reads_ok (log lv msg st) = reads_ok st"
    by (simp add: reads_ok_def log_def reads_append)
  ultimately show ?thesis using i by (simp add: consistent_def)
qed

lemma tally_Suc:
  assumes "nextId st' = Suc (nextId st)" and "\<forall>j < nextId st. heap st' j = heap st j"
    and "fileContent (heap st' (nextId st)) = None"
  shows "tally_links st' = tally_links st" "tally_replacements st' = tally_replacements st"
proof -
  have "(\<Sum>j<nextId st. if fileContent (heap st' j) = None then 0
                          else int (length (linksDico (heap st' j))))
      = (\<Sum>j<nextId st. if fileContent (heap st j) = None then 0
                          else int (length (linksDico (heap st j))))"
    by (rule sum.cong) (use assms(2) in auto)
  then show "tally_links st' = tally_links st"
    using assms(1,3) by (simp add: tally_links_def)
  have "(\<Sum>j<nextId st. if fileContent (heap st' j) = None then 0
                          else int (length (replacementsDico (heap st' j))))
      = (\<Sum>j<nextId st. if fileContent (heap st j) = None then 0
                          else int (length (replacementsDico (heap st j))))"
    by (rule sum.cong) (use assms(2) in auto)
  then show "tally_replacements st' = tally_replacements st"
    using assms(1,3) by (simp add: tally_replacements_def)
qed

lemma inv_RhpRpyx_init:
  assumes "consistent st" and "RhpRpyx_init path st = (r, st2)"
  shows "consistent st2" "r < nextId st2" "fileContent (heap st2 r) = None"
proof -
  note f = RhpRpyx_init_facts[OF assms(2)]
  have 1: "\<forall>j < nextId st. heap st2 j = heap st j" using f(3) by simp
  have 2: "fileContent (heap st2 (nextId st)) = None" using f(3) by simp
  have t: "tallied st2"
    using assms(1) tally_Suc[OF f(2) 1 2] f(4) by (simp add: consistent_def tallied_def)
  have e: "extends st st2" using extends_RhpRpyx_init[of st path] assms(2) by simp
  have h: "heap_ok st2" using assms(1) heap_ok_extends[OF _ e] by (simp add: consistent_def)
  have ro: "reads_ok st2" using assms(1) f(5,7) by (simp add: consistent_def reads_ok_def)
  from t h ro show "consistent st2" by (simp add: consistent_def)
  show "r < nextId st2" using f(1,2) by simp
  show "fileContent (heap st2 r) = None" using f(1) 2 by simp
qed

lemma inv_update_seeds:
  "update_seeds fuel seeds st = Some out \<Longrightarrow> consistent st \<Longrightarrow> consistent (final out)"
proof (induction seeds arbitrary: st)
  case Nil
  then show ?case by auto
next
  case (Cons p ps)
  let ?st1 = "log INFO (''Apply 'RelativePathReplacementStrategy' to file '' @ p) st"
  obtain r st2 where i: "RhpRpyx_init p ?st1 = (r, st2)" by (cases "RhpRpyx_init p ?st1")
  note f = inv_RhpRpyx_init[OF inv_log[OF Cons.prems(2)] i]
  note u = Cons.prems(1)[unfolded update_seeds_Cons i prod.case]
  show ?case
  proof (cases "exists (heap st2 r)")
    case False
    with u have "update_seeds fuel ps (log WARNING (absPath (heap st2 r) @ '' does not exist'') st2) = Some out"
      by simp
    from Cons.IH[OF this inv_log[OF f(1)]] show ?thesis .
  next
    case True
    with f have rd: "ready st2 r" by (simp add: ready_def)
    show ?thesis
    proof (cases "searchLinks fuel r (- 1) st2")
      case None
      with u True show ?thesis by simp
    next
      case (Some o1)
      note i1 = inv_searchLinks[OF Some f(1) rd]
      show ?thesis
      proof (cases o1)
        case (Returned v st3)
        with u True Some have "update_seeds fuel ps st3 = Some out" by simp
        from Cons.IH[OF this] i1 Returned show ?thesis by simp
      next
        case (Raised e st3)
        with u True Some have "out = Raised e st3" by simp
        with i1 Raised show ?thesis by simp
      qed
    qed
  qed
qed

lemma doReplacements_facts:
  assumes "doReplacements x st = out" and "fs_exists (fs st) (absPath (heap st x))"
  shows "heap (final out) = heap st \<and> nextId (final out) = nextId st \<and> cwd (final out) = cwd st
      \<and> indexByAbsPath (final out) = indexByAbsPath st \<and> strategy (final out) = strategy st
      \<and> fs_exists (fs (final out)) = fs_exists (fs st)
      \<and> (\<exists>evs. events (final out) = events st @ evs \<and> reads evs = []
            \<and> set (written evs) \<subseteq> {absPath (heap st x)} \<and> length (written evs) \<le> 1
            \<and> (\<forall>p. p \<notin> set (written evs) \<longrightarrow> fs_read (fs (final out)) p = fs_read (fs st) p))"
proof (cases "fileContent (heap st x)")
  case None
  with assms(1) have "out = Raised AttributeError st" by (simp add: doReplacements_def)
  then show ?thesis by simp
next
  case (Some content)
  let ?p = "absPath (heap st x)"
  let ?new = "foldl (\<lambda>c (oldStr, newStr). replace_all oldStr newStr c) content
                (replacementsDico (heap st x))"
  have ex: "(fs_exists (fs st))(?p := True) = fs_exists (fs st)"
    using assms(2) by (auto simp: fun_eq_iff)
  show ?thesis
  proof (cases "fs_writable (fs st) ?p")
    case True
    with assms(1) Some have o: "out = Returned ()
        ((emit (OpenWrite ?p ?new) st)\<lparr>fs := (fs st)\<lparr>fs_exists := (fs_exists (fs st))(?p := True),
             fs_read := (fs_read (fs st))(?p := Some ?new)\<rparr>\<rparr>)"
      by (simp add: doReplacements_def Let_def emit_def)
    have "events (final out) = events st @ [OpenWrite ?p ?new] \<and> reads [OpenWrite ?p ?new] = []
            \<and> set (written [OpenWrite ?p ?new]) \<subseteq> {?p} \<and> length (written [OpenWrite ?p ?new]) \<le> 1
            \<and> (\<forall>p. p \<notin> set (written [OpenWrite ?p ?new])
                   \<longrightarrow> fs_read (fs (final out)) p = fs_read (fs st) p)"
      unfolding o by (simp add: emit_def)
    then have e: "\<exists>evs. events (final out) = events st @ evs \<and> reads evs = []
            \<and> set (written evs) \<subseteq> {?p} \<and> length (written evs) \<le> 1
            \<and> (\<forall>p. p \<notin> set (written evs) \<longrightarrow> fs_read (fs (final out)) p = fs_read (fs st) p)"
      by blast
    have "heap (final out) = heap st \<and> nextId (final out) = nextId st \<and> cwd (final out) = cwd st
      \<and> indexByAbsPath (final out) = indexByAbsPath st \<and> strategy (final out) = strategy st
      \<and> fs_exists (fs (final out)) = fs_exists (fs st)"
      unfolding o using ex by (simp add: emit_def)
    with e show ?thesis by blast
  next
    case False
    with assms(1) Some have o: "out = Raised (IOError ?p)
        (log ERROR (''Error writing file '' @ ?p @ '' : '') (emit (OpenWrite ?p ?new) st))"
      by (simp add: doReplacements_def Let_def emit_def)
    let ?evs = "[OpenWrite ?p ?new, Log ERROR (''Error writing file '' @ ?p @ '' : '')]"
    have "events (final out) = events st @ ?evs \<and> reads ?evs = []
            \<and> set (written ?evs) \<subseteq> {?p} \<and> length (written ?evs) \<le> 1
            \<and> (\<forall>p. p \<notin> set (written ?evs) \<longrightarrow> fs_read (fs (final out)) p = fs_read (fs st) p)"
      unfolding o by (simp add: emit_def log_def)
    then have e: "\<exists>evs. events (final out) = events st @ evs \<and> reads evs = []
            \<and> set (written evs) \<subseteq> {?p} \<and> length (written evs) \<le> 1
            \<and> (\<forall>p. p \<notin> set (written evs) \<longrightarrow> fs_read (fs (final out)) p = fs_read (fs st) p)"
      by blast
    have "heap (final out) = heap st \<and> nextId (final out) = nextId st \<and> cwd (final out) = cwd st
      \<and> indexByAbsPath (final out) = indexByAbsPath st \<and> strategy (final out) = strategy st
      \<and> fs_exists (fs (final out)) = fs_exists (fs st)"
      unfolding o by (simp add: emit_def log_def)
    with e show ?thesis by blast
  qed
qed

lemma appliedI:
  assumes "heap st' = heap st" "nextId st' = nextId st" "cwd st' = cwd st"
    "indexByAbsPath st' = indexByAbsPath st"
    "linkCount (strategy st') = linkCount (strategy st)"
    "replacementCount (strategy st') = replacementCount (strategy st)"
    "fileUpdatedCount (strategy st') = fileUpdatedCount (strategy st)"
    "maxFileToUpdate (strategy st') = maxFileToUpdate (strategy st)"
    "fs_exists (fs st') = fs_exists (fs st)"
    "events st' = events st @ evs" "reads evs = []"
    "length (written evs) \<le> budget st"
    "\<forall>p \<in> set (written evs). fs_exists (fs st) p"
    "\<forall>p. p \<notin> set (written evs) \<longrightarrow> fs_read (fs st') p = fs_read (fs st) p"
  shows "applied st st'"
  unfolding applied_def using assms by blast

lemma appliedE:
  assumes "applied st st'"
  obtains evs where "heap st' = heap st" "nextId st' = nextId st" "cwd st' = cwd st"
    "indexByAbsPath st' = indexByAbsPath st"
    "linkCount (strategy st') = linkCount (strategy st)"
    "replacementCount (strategy st') = replacementCount (strategy st)"
    "fileUpdatedCount (strategy st') = fileUpdatedCount (strategy st)"
    "maxFileToUpdate (strategy st') = maxFileToUpdate (strategy st)"
    "fs_exists (fs st') = fs_exists (fs st)"
    "events st' = events st @ evs" "reads evs = []"
    "length (written evs) \<le> budget st"
    "\<forall>p \<in> set (written evs). fs_exists (fs st) p"
    "\<forall>p. p \<notin> set (written evs) \<longrightarrow> fs_read (fs st') p = fs_read (fs st) p"
  using assms unfolding applied_def by blast

lemma applied_refl: "applied st st"
  by (rule appliedI[where evs = "[]"]) simp_all

lemma applied_ret_refl: "applied_ret st st"
  by (simp add: applied_ret_def applied_refl)

lemma applied_trans:
  assumes ab: "applied_ret a b" and bc: "applied b c"
  shows "applied a c"
proof -
  from ab have ab': "applied a b" by (simp add: applied_ret_def)
  from ab' obtain e1 where 1:
    "heap b = heap a" "nextId b = nextId a" "cwd b = cwd a"
    "indexByAbsPath b = indexByAbsPath a"
    "linkCount (strategy b) = linkCount (strategy a)"
    "replacementCount (strategy b) = replacementCount (strategy a)"
    "fileUpdatedCount (strategy b) = fileUpdatedCount (strategy a)"
    "maxFileToUpdate (strategy b) = maxFileToUpdate (strategy a)"
    "fs_exists (fs b) = fs_exists (fs a)"
    "events b = events a @ e1" "reads e1 = []"
    "length (written e1) \<le> budget a"
    "\<forall>p \<in> set (written e1). fs_exists (fs a) p"
    "\<forall>p. p \<notin> set (written e1) \<longrightarrow> fs_read (fs b) p = fs_read (fs a) p"
    by (rule appliedE)
  from bc obtain e2 where 2:
    "heap c = heap b" "nextId c = nextId b" "cwd c = cwd b"
    "indexByAbsPath c = indexByAbsPath b"
    "linkCount (strategy c) = linkCount (strategy b)"
    "replacementCount (strategy c) = replacementCount (strategy b)"
    "fileUpdatedCount (strategy c) = fileUpdatedCount (strategy b)"
    "maxFileToUpdate (strategy c) = maxFileToUpdate (strategy b)"
    "fs_exists (fs c) = fs_exists (fs b)"
    "events c = events b @ e2" "reads e2 = []"
    "length (written e2) \<le> budget b"
    "\<forall>p \<in> set (written e2). fs_exists (fs b) p"
    "\<forall>p. p \<notin> set (written e2) \<longrightarrow> fs_read (fs c) p = fs_read (fs b) p"
    by (rule appliedE)
  from ab obtain e1' where "events b = events a @ e1'"
    "length (written e1') + budget b \<le> budget a" by (auto simp: applied_ret_def)
  with 1(10) have pot: "length (written e1) + budget b \<le> budget a" by simp
  show ?thesis
  proof (rule appliedI[where evs = "e1 @ e2"])
    show "events c = events a @ e1 @ e2" using 1(10) 2(10) by simp
    show "reads (e1 @ e2) = []" using 1(11) 2(11) by (simp add: reads_append)
    show "length (written (e1 @ e2)) \<le> budget a"
      using pot 2(12) by (simp add: written_append)
    show "\<forall>p \<in> set (written (e1 @ e2)). fs_exists (fs a) p"
      using 1(13) 2(13) 1(9) by (auto simp: written_append)
    show "\<forall>p. p \<notin> set (written (e1 @ e2)) \<longrightarrow> fs_read (fs c) p = fs_read (fs a) p"
      using 1(14) 2(14) by (simp add: written_append)
  qed (simp_all add: 1 2)
qed

lemma applied_ret_trans:
  assumes ab: "applied_ret a b" and bc: "applied_ret b c"
  shows "applied_ret a c"
proof -
  from bc have "applied b c" by (simp add: applied_ret_def)
  from applied_trans[OF ab this] have ac: "applied a c" .
  from ab obtain e1 where 1: "events b = events a @ e1"
    "length (written e1) + budget b \<le> budget a" by (auto simp: applied_ret_def)
  from bc obtain e2 where 2: "events c = events b @ e2"
    "length (written e2) + budget c \<le> budget b" by (auto simp: applied_ret_def)
  have "events c = events a @ (e1 @ e2) \<and> length (written (e1 @ e2)) + budget c \<le> budget a"
    using 1 2 by (simp add: written_append)
  with ac show ?thesis unfolding applied_ret_def by blast
qed

lemma applied_ret_quiet:
  assumes "heap st' = heap st" "nextId st' = nextId st" "cwd st' = cwd st"
    "indexByAbsPath st' = indexByAbsPath st"
    "linkCount (strategy st') = linkCount (strategy st)"
    "replacementCount (strategy st') = replacementCount (strategy st)"
    "fileUpdatedCount (strategy st') = fileUpdatedCount (strategy st)"
    "maxFileToUpdate (strategy st') = maxFileToUpdate (strategy st)"
    "fs st' = fs st"
    "events st' = events st @ [Log lv msg]"
    "budget st' \<le> budget st"
  shows "applied_ret st st'"
proof -
  have "applied st st'"
    by (rule appliedI[where evs = "[Log lv msg]"]) (simp_all add: assms)
  moreover have "events st' = events st @ [Log lv msg]
                 \<and> length (written [Log lv msg]) + budget st' \<le> budget st"
    using assms(10,11) by simp
  ultimately show ?thesis unfolding applied_ret_def by blast
qed

lemma strategy_doReplacements_applied:
  assumes ok: "exists (heap st x) \<longrightarrow> fs_exists (fs st) (absPath (heap st x))"
  shows "applied st (final (strategy_doReplacements x st))"
    and "strategy_doReplacements x st = Returned u st' \<Longrightarrow> applied_ret st st'"
proof -
  let ?r = "heap st x"
  have both: "applied st (final (strategy_doReplacements x st))
        \<and> (\<forall>u st'. strategy_doReplacements x st = Returned u st' \<longrightarrow> applied_ret st st')"
  proof (cases "\<not> exists ?r \<or> replacementsDico ?r = []")
    case True
    have "\<exists>msg. strategy_doReplacements x st = Returned () (log DEBUG msg st)"
    proof (cases "exists ?r")
      case False
      then have "strategy_doReplacements x st = Returned ()
          (log DEBUG (''Ignoring file '' @ absPath ?r @ '', as it does not exist'') st)"
        by (simp add: strategy_doReplacements_def)
      then show ?thesis by (rule exI)
    next
      case ex: True
      with True have "replacementsDico ?r = []" by simp
      with ex have "strategy_doReplacements x st = Returned ()
          (log DEBUG (''Skipping file '' @ absPath ?r @ '', as there is no replacement to do'') st)"
        by (simp add: strategy_doReplacements_def Let_def)
      then show ?thesis by (rule exI)
    qed
    then obtain msg where o: "strategy_doReplacements x st = Returned () (log DEBUG msg st)"
      by blast
    have a: "applied_ret st (log DEBUG msg st)"
      by (rule applied_ret_quiet[where lv = DEBUG and msg = msg]) (simp_all add: log_def budget_def)
    then show ?thesis unfolding o by (simp add: applied_ret_def)
  next
    case False
    then have ex: "exists ?r" and re: "replacementsDico ?r \<noteq> []" by simp_all
    let ?msg = "str_nat (length (replacementsDico ?r)) @ '' replacements written in file ''
                  @ absPath ?r"
    let ?bump = "\<lambda>s. (log DEBUG ?msg s)\<lparr>strategy := (strategy (log DEBUG ?msg s))
                    \<lparr>updatedFileCount := updatedFileCount (strategy (log DEBUG ?msg s)) + 1\<rparr>\<rparr>"
    show ?thesis
    proof (cases "updatedFileCount (strategy st) < maxFileToUpdate (strategy st)")
      case False
      with ex re have o: "strategy_doReplacements x st = Returned () (?bump st)"
        by (simp add: strategy_doReplacements_def Let_def)
      have a: "applied_ret st (?bump st)"
        by (rule applied_ret_quiet[where lv = DEBUG and msg = ?msg])
           (use False in \<open>simp_all add: log_def budget_def\<close>)
      then show ?thesis unfolding o by (simp add: applied_ret_def)
    next
      case True
      then have b1: "1 \<le> budget st" by (simp add: budget_def)
      from ex ok have fe: "fs_exists (fs st) (absPath ?r)" by simp
      note d = doReplacements_facts[OF refl fe]
      from d obtain evs where dd:
        "heap (final (doReplacements x st)) = heap st"
        "nextId (final (doReplacements x st)) = nextId st"
        "cwd (final (doReplacements x st)) = cwd st"
        "indexByAbsPath (final (doReplacements x st)) = indexByAbsPath st"
        "strategy (final (doReplacements x st)) = strategy st"
        "fs_exists (fs (final (doReplacements x st))) = fs_exists (fs st)"
        "events (final (doReplacements x st)) = events st @ evs" "reads evs = []"
        "set (written evs) \<subseteq> {absPath ?r}" "length (written evs) \<le> 1"
        "\<forall>p. p \<notin> set (written evs)
           \<longrightarrow> fs_read (fs (final (doReplacements x st))) p = fs_read (fs st) p"
        by blast
      have wex: "\<forall>p \<in> set (written evs). fs_exists (fs st) p" using dd(9) fe by auto
      show ?thesis
      proof (cases "doReplacements x st")
        case (Raised e s1)
        with ex re True have o: "strategy_doReplacements x st = Raised e s1"
          by (simp add: strategy_doReplacements_def Let_def)
        have "applied st s1"
          by (rule appliedI[where evs = evs])
             (use dd wex b1 Raised in \<open>simp_all\<close>)
        then show ?thesis unfolding o by simp
      next
        case (Returned v s1)
        with ex re True have o: "strategy_doReplacements x st = Returned () (?bump s1)"
          by (simp add: strategy_doReplacements_def Let_def)
        have bb: "budget (?bump s1) + 1 \<le> budget st"
          using True dd(5) Returned by (simp add: budget_def log_def)
        have a: "applied st (?bump s1)"
          by (rule appliedI[where evs = "evs @ [Log DEBUG ?msg]"])
             (use dd wex b1 Returned in \<open>simp_all add: log_def reads_append written_append\<close>)
        have "events (?bump s1) = events st @ (evs @ [Log DEBUG ?msg])
              \<and> length (written (evs @ [Log DEBUG ?msg])) + budget (?bump s1) \<le> budget st"
          using dd(7,10) bb Returned by (simp add: log_def written_append)
        with a have "applied_ret st (?bump s1)" unfolding applied_ret_def by blast
        with a show ?thesis unfolding o by simp
      qed
    qed
  qed
  from both show "applied st (final (strategy_doReplacements x st))" by blast
  from both show "strategy_doReplacements x st = Returned u st' \<Longrightarrow> applied_ret st st'" by blast
qed

lemma heap_ok_applied: "heap_ok st \<Longrightarrow> applied st st' \<Longrightarrow> heap_ok st'"
  by (simp add: heap_ok_def applied_def)

lemma apply_all_applied: "heap_ok st \<Longrightarrow> applied st (final (apply_all xs st))"
proof (induction xs arbitrary: st)
  case Nil
  then show ?case by (simp add: applied_refl)
next
  case (Cons x xs)
  from Cons.prems have ok: "exists (heap st x) \<longrightarrow> fs_exists (fs st) (absPath (heap st x))"
    by (simp add: heap_ok_def)
  show ?case
  proof (cases "strategy_doReplacements x st")
    case (Raised e s1)
    with strategy_doReplacements_applied(1)[OF ok] show ?thesis by simp
  next
    case (Returned u s1)
    from strategy_doReplacements_applied(2)[OF ok Returned] have a: "applied_ret st s1" .
    then have "applied st s1" by (simp add: applied_ret_def)
    from heap_ok_applied[OF Cons.prems this] have "heap_ok s1" .
    from Cons.IH[OF this] have "applied s1 (final (apply_all xs s1))" .
    from applied_trans[OF a this] show ?thesis using Returned by simp
  qed
qed

lemma run_phases:
  assumes "run fuel c fs0 k seeds = Some out"
  obtains st1 where "extends (init_state c fs0 k) st1" "consistent st1" "applied st1 (final out)"
proof (cases "update_seeds fuel seeds (init_state c fs0 k)")
  case None
  with assms show ?thesis by (simp add: run_def update_def)
next
  case (Some o1)
  note e = extends_update_seeds[OF Some]
  note i = inv_update_seeds[OF Some inv_init_state]
  show ?thesis
  proof (cases o1)
    case (Raised err st1)
    with Some assms have "out = Raised err st1" by (simp add: run_def update_def)
    then have "applied st1 (final out)" by (simp add: applied_refl)
    with e i Raised that show ?thesis by simp
  next
    case (Returned u st1)
    with Some assms have o: "out = apply_all (map snd (indexByAbsPath st1)) st1"
      by (simp add: run_def update_def)
    from i Returned have "heap_ok st1" by (simp add: consistent_def)
    from apply_all_applied[OF this, of "map snd (indexByAbsPath st1)"] o
    have "applied st1 (final out)" by simp
    with e i Returned that show ?thesis by simp
  qed
qed

lemma run_events:
  assumes "run fuel c fs0 k seeds = Some out"
  obtains pre post where "events (final out) = pre @ post"
    "written pre = []" "reads post = []"
    "\<forall>p \<in> set (reads pre). fs_exists fs0 p"
    "\<forall>p \<in> set (written post). fs_exists fs0 p"
    "length (written post) \<le> nat k"
    "\<forall>p. p \<notin> set (written post) \<longrightarrow> fs_read (fs (final out)) p = fs_read fs0 p"
    "tallied (final out)"
proof -
  from assms obtain st1 where s: "extends (init_state c fs0 k) st1" "consistent st1"
    "applied st1 (final out)" by (rule run_phases)
  from s(1) have d: "fs st1 = fs0" "written (events st1) = []" "budget st1 = nat k"
    by (auto simp: extends_def init_state_def strategy_init_def budget_def)
  from s(3) obtain evs where a:
    "heap (final out) = heap st1" "nextId (final out) = nextId st1"
    "linkCount (strategy (final out)) = linkCount (strategy st1)"
    "replacementCount (strategy (final out)) = replacementCount (strategy st1)"
    "events (final out) = events st1 @ evs" "reads evs = []"
    "length (written evs) \<le> budget st1"
    "\<forall>p \<in> set (written evs). fs_exists (fs st1) p"
    "\<forall>p. p \<notin> set (written evs) \<longrightarrow> fs_read (fs (final out)) p = fs_read (fs st1) p"
    by (rule appliedE)
  have t: "tallied (final out)"
    using s(2) tallied_same[OF a(1,2,3,4)] by (simp add: consistent_def)
  have r: "\<forall>p \<in> set (reads (events st1)). fs_exists fs0 p"
    using s(2) d(1) by (simp add: consistent_def reads_ok_def)
  show ?thesis
    by (rule that[OF a(5) d(2) a(6) r]) (use a d t in simp_all)
qed

text \<open>
  Claim C2. In every run with write cap \<open>k\<close>, whether it returns or raises, at most
  \<open>k\<close> files are opened for writing and at most \<open>k\<close> files have a text on disk that
  differs from the text before the run, however many indexed files have replacements; and
  the link total and the replacement total are the sums, over every instance whose text
  was read, of the sizes of its link map and of its replacement map.
\<close>

theorem cap_bounds_writes:
  assumes "run fuel c fs0 k seeds = Some out"
  shows "length (written (events (final out))) \<le> nat k
       \<and> finite {p. fs_read (fs (final out)) p \<noteq> fs_read fs0 p}
       \<and> card {p. fs_read (fs (final out)) p \<noteq> fs_read fs0 p} \<le> nat k
       \<and> linkCount (strategy (final out)) = tally_links (final out)
       \<and> replacementCount (strategy (final out)) = tally_replacements (final out)"
proof -
  from assms obtain pre post where e: "events (final out) = pre @ post"
    "written pre = []" "length (written post) \<le> nat k"
    "\<forall>p. p \<notin> set (written post) \<longrightarrow> fs_read (fs (final out)) p = fs_read fs0 p"
    "tallied (final out)"
    by (rule run_events)
  have w: "length (written (events (final out))) \<le> nat k"
    using e(1,2,3) by (simp add: written_append)
  have sub: "{p. fs_read (fs (final out)) p \<noteq> fs_read fs0 p} \<subseteq> set (written post)"
    using e(4) by blast
  then have f: "finite {p. fs_read (fs (final out)) p \<noteq> fs_read fs0 p}"
    by (rule finite_subset) simp
  have "card {p. fs_read (fs (final out)) p \<noteq> fs_read fs0 p} \<le> card (set (written post))"
    by (rule card_mono[OF _ sub]) simp
  also have "\<dots> \<le> length (written post)" by (rule card_length)
  finally have cd: "card {p. fs_read (fs (final out)) p \<noteq> fs_read fs0 p} \<le> nat k"
    using e(3) by simp
  from w f cd e(5) show ?thesis by (simp add: tallied_def)
qed

lemma index_link_heap:
  assumes "index_link self (st, new) x = (st', new')"
  shows "linksDico (heap st' self)
           = dict_set (linksDico (heap st self)) (fst x)
               (case getIndexedRhpyx (absPath (heap st (snd x))) st of
                  None \<Rightarrow> snd x | Some a \<Rightarrow> a)"
  using assms
  by (auto simp: index_link_def Let_def linkRpyx_def set_obj_def addIndexedRhpyx_def log_def
           split: if_splits option.splits)

lemma index_link_index:
  assumes "index_link self (st, new) x = (st', new')"
  shows "map_of (indexByAbsPath st') (lower (absPath (heap st (snd x))))
           = Some (case getIndexedRhpyx (absPath (heap st (snd x))) st of
                     None \<Rightarrow> snd x | Some a \<Rightarrow> a)"
    and "map_of (indexByAbsPath st) k = Some v \<Longrightarrow> map_of (indexByAbsPath st') k = Some v"
proof -
  let ?k = "lower (absPath (heap st (snd x)))"
  let ?st1 = "linkRpyx self (fst x)
                (case getIndexedRhpyx (absPath (heap st (snd x))) st of
                   None \<Rightarrow> snd x | Some a \<Rightarrow> a) st"
  have h1: "absPath (heap ?st1 (snd x)) = absPath (heap st (snd x))"
    using indexing_absPath[OF indexing_linkRpyx] by simp
  have i1: "indexByAbsPath ?st1 = indexByAbsPath st" by (simp add: linkRpyx_def set_obj_def)
  show "map_of (indexByAbsPath st') ?k
           = Some (case getIndexedRhpyx (absPath (heap st (snd x))) st of
                     None \<Rightarrow> snd x | Some a \<Rightarrow> a)"
  proof (cases "getIndexedRhpyx (absPath (heap st (snd x))) st")
    case None
    then have n: "map_of (indexByAbsPath st) ?k = None" by (simp add: getIndexedRhpyx_def)
    from assms None have "st' = addIndexedRhpyx (snd x) ?st1"
      by (simp add: index_link_def Let_def)
    then have "indexByAbsPath st' = dict_set (indexByAbsPath st) ?k (snd x)"
      using n h1 i1 None by (simp add: addIndexedRhpyx_def Let_def log_def)
    then show ?thesis using None by (simp add: map_of_dict_set)
  next
    case (Some a)
    with assms have "st' = ?st1" by (simp add: index_link_def Let_def)
    with i1 Some show ?thesis by (simp add: getIndexedRhpyx_def)
  qed
  show "map_of (indexByAbsPath st) k = Some v \<Longrightarrow> map_of (indexByAbsPath st') k = Some v"
  proof -
    assume kv: "map_of (indexByAbsPath st) k = Some v"
    have e: "extends st st'" using extends_index_link[of "(st, new)" self x] assms by simp
    then obtain ix where "indexByAbsPath st' = indexByAbsPath st @ ix"
      by (auto simp: extends_def)
    with kv show ?thesis by (simp add: map_add_Some_iff)
  qed
qed

lemma index_links_keys:
  assumes "foldl (index_link self) (st, new) xs = (st', new')"
  shows "fst ` set (linksDico (heap st' self)) = fst ` set (linksDico (heap st self)) \<union> fst ` set xs"
  using assms
proof (induction xs arbitrary: st new)
  case Nil
  then show ?case by simp
next
  case (Cons x xs)
  obtain st1 new1 where s: "index_link self (st, new) x = (st1, new1)"
    by (cases "index_link self (st, new) x")
  from Cons.prems s have f: "foldl (index_link self) (st1, new1) xs = (st', new')" by simp
  have "fst ` set (linksDico (heap st1 self)) = insert (fst x) (fst ` set (linksDico (heap st self)))"
    unfolding index_link_heap[OF s] by (rule dict_set_keys)
  with Cons.IH[OF f] show ?case by auto
qed

lemma index_links_kept:
  assumes "foldl (index_link self) (st, new) xs = (st', new')"
    and "link \<notin> fst ` set xs"
  shows "map_of (linksDico (heap st' self)) link = map_of (linksDico (heap st self)) link"
  using assms
proof (induction xs arbitrary: st new)
  case Nil
  then show ?case by simp
next
  case (Cons x xs)
  obtain st1 new1 where s: "index_link self (st, new) x = (st1, new1)"
    by (cases "index_link self (st, new) x")
  from Cons.prems(1) s have f: "foldl (index_link self) (st1, new1) xs = (st', new')" by simp
  from Cons.prems(2) have n: "link \<notin> fst ` set xs" "fst x \<noteq> link" by auto
  have "map_of (linksDico (heap st1 self)) link = map_of (linksDico (heap st self)) link"
    unfolding index_link_heap[OF s] using n(2) by (simp add: map_of_dict_set)
  with Cons.IH[OF f n(1)] show ?case by simp
qed

lemma index_links_index_kept:
  assumes "foldl (index_link self) (st, new) xs = (st', new')"
    and "map_of (indexByAbsPath st) k = Some v"
  shows "map_of (indexByAbsPath st') k = Some v"
  using assms
proof (induction xs arbitrary: st new)
  case Nil
  then show ?case by simp
next
  case (Cons x xs)
  obtain st1 new1 where s: "index_link self (st, new) x = (st1, new1)"
    by (cases "index_link self (st, new) x")
  from Cons.prems(1) s have f: "foldl (index_link self) (st1, new1) xs = (st', new')" by simp
  from index_link_index(2)[OF s Cons.prems(2)] have "map_of (indexByAbsPath st1) k = Some v" .
  from Cons.IH[OF f this] show ?case .
qed

lemma index_links_registered:
  assumes "foldl (index_link self) (st, new) xs = (st', new')"
    and "distinct (map fst xs)" and "(link, cand) \<in> set xs"
  shows "\<exists>c. map_of (linksDico (heap st' self)) link = Some c
            \<and> map_of (indexByAbsPath st') (lower (absPath (heap st cand))) = Some c"
  using assms
proof (induction xs arbitrary: st new)
  case Nil
  then show ?case by simp
next
  case (Cons x xs)
  obtain st1 new1 where s: "index_link self (st, new) x = (st1, new1)"
    by (cases "index_link self (st, new) x")
  from Cons.prems(1) s have f: "foldl (index_link self) (st1, new1) xs = (st', new')" by simp
  show ?case
  proof (cases "x = (link, cand)")
    case True
    let ?c = "case getIndexedRhpyx (absPath (heap st cand)) st of None \<Rightarrow> cand | Some a \<Rightarrow> a"
    from Cons.prems(2) True have n: "link \<notin> fst ` set xs" by auto
    have 1: "map_of (linksDico (heap st1 self)) link = Some ?c"
      unfolding index_link_heap[OF s] using True
      by (simp add: map_of_dict_set split: option.splits)
    have 2: "map_of (indexByAbsPath st1) (lower (absPath (heap st cand))) = Some ?c"
      using index_link_index(1)[OF s] True by (simp split: option.splits)
    from index_links_kept[OF f n] 1 have "map_of (linksDico (heap st' self)) link = Some ?c"
      by simp
    moreover from index_links_index_kept[OF f 2]
    have "map_of (indexByAbsPath st') (lower (absPath (heap st cand))) = Some ?c" .
    ultimately show ?thesis by blast
  next
    case False
    with Cons.prems(3) have m: "(link, cand) \<in> set xs" by simp
    from Cons.prems(2) have d: "distinct (map fst xs)" by simp
    have i: "indexing self st st1" using indexing_index_link[of self "(st, new)" x] s by simp
    from Cons.IH[OF f d m] indexing_absPath[OF i, of cand] show ?thesis by simp
  qed
qed

lemma set_trace_events:
  "set (events (trace self st))
     = set (events st) \<union> {Log INFO (''Links of '' @ absPath (heap st self))}
       \<union> trace_line (heap st self) st ` set (linksDico (heap st self))"
  by (auto simp: trace_def log_def Let_def)

lemma trace_line_missing:
  assumes "\<not> exists (heap st c)"
  shows "trace_line r st (link, c)
           = Log WARNING (''    '' @ rpyxToMatch link @ '' does not exists''
                          @ (case map_of (replacementsDico r) (rpyxToMatch link) of
                               None \<Rightarrow> [] | Some n \<Rightarrow> '' => '' @ n))"
  using assms by (simp add: trace_line_def Let_def)

lemma own_step_unfold:
  assumes "own_step self linked st1 = (st4, listNew)"
  obtains st2 where "foldl (index_link self) (st1, []) linked = (st2, listNew)"
    "st4 = trace self (prepareAndCountReplacements self st2)"
proof -
  obtain st2 new where f: "foldl (index_link self) (st1, []) linked = (st2, new)"
    by (cases "foldl (index_link self) (st1, []) linked")
  with assms have "st4 = trace self (prepareAndCountReplacements self st2)" "listNew = new"
    by (simp_all add: own_step_def Let_def)
  with f that show ?thesis by simp
qed

lemma prepareAndCount_keeps:
  "indexByAbsPath (prepareAndCountReplacements self st) = indexByAbsPath st"
  "events (prepareAndCountReplacements self st) = events st"
  "replacementsDico (heap (prepareAndCountReplacements self st) self)
     = replacementsDico (heap (prepareReplacements self st) self)"
  by (simp_all add: prepareAndCountReplacements_def prepareReplacements_def set_obj_def Let_def)

lemma prepareReplacements_relative:
  assumes "\<forall>l \<in> fst ` set (linksDico (heap st self)). \<not> isabs l"
  shows "replacementsDico (heap (prepareReplacements self st) self) = []"
proof -
  from assms have "filter isabs (map fst (linksDico (heap st self))) = []"
    by (auto simp: filter_empty_conv)
  then show ?thesis by (simp add: prepareReplacements_def set_obj_def Let_def)
qed

lemma prepareAndCount_relative:
  assumes "\<forall>l \<in> fst ` set (linksDico (heap st self)). \<not> isabs l"
  shows "replacementCount (strategy (prepareAndCountReplacements self st))
           = replacementCount (strategy st)"
    "fileUpdatedCount (strategy (prepareAndCountReplacements self st))
           = fileUpdatedCount (strategy st)"
proof -
  have s: "strategy (prepareReplacements self st) = strategy st"
    by (simp add: prepareReplacements_def set_obj_def Let_def)
  show "replacementCount (strategy (prepareAndCountReplacements self st))
           = replacementCount (strategy st)"
    using prepareReplacements_relative[OF assms] s
    by (simp add: prepareAndCountReplacements_def Let_def)
  show "fileUpdatedCount (strategy (prepareAndCountReplacements self st))
           = fileUpdatedCount (strategy st)"
    using prepareReplacements_relative[OF assms] s
    by (simp add: prepareAndCountReplacements_def Let_def)
qed

text \<open>
  Claim C5, amended. \<open>prepareReplacements\<close> stores an entry exactly for the keys of the
  link map that are absolute paths and skips the relative ones. So when a file is searched
  whose tokens all decode to relative references (and whose link map held no absolute key
  before), no replacement is computed for it, and the replacement total and the count of
  files with replacements stay as they were.
\<close>

theorem relative_references_skipped:
  assumes g: "getLinkedRpyx self st = Returned linked st1"
    and o: "own_step self linked st1 = (st4, listNew)"
    and a: "self < nextId st"
    and c: "fs_read (fs st) (absPath (heap st self)) = Some content"
    and old: "\<forall>l \<in> fst ` set (linksDico (heap st self)). \<not> isabs l"
    and rel: "\<forall>m \<in> set (findall content). \<not> isabs (matchToRpyx m)"
  shows "fst ` set (replacementsDico (heap (prepareReplacements self st) self))
           = rpyxToMatch ` {l \<in> fst ` set (linksDico (heap st self)). isabs l}
       \<and> replacementsDico (heap st4 self) = []
       \<and> replacementCount (strategy st4) = replacementCount (strategy st)
       \<and> fileUpdatedCount (strategy st4) = fileUpdatedCount (strategy st)"
proof -
  from g obtain content' where gf:
    "fs_read (fs st) (absPath (heap st self)) = Some content'"
    "unchanged_but_heap (emit (OpenRead (absPath (heap st self))) st) st1"
    "self < nextId st \<longrightarrow> heap st1 self = (heap st self)\<lparr>fileContent := Some content'\<rparr>"
    "fst ` set linked = matchToRpyx ` set (findall content')"
    by (rule getLinkedRpyx_Returned) blast
  from gf(1) c have cc: "content' = content" by simp
  from o obtain st2 where f: "foldl (index_link self) (st1, []) linked = (st2, listNew)"
    and e: "st4 = trace self (prepareAndCountReplacements self st2)"
    by (rule own_step_unfold)
  have l1: "linksDico (heap st1 self) = linksDico (heap st self)" using gf(3) a by simp
  have k: "fst ` set (linksDico (heap st2 self))
             = fst ` set (linksDico (heap st self)) \<union> matchToRpyx ` set (findall content)"
    using index_links_keys[OF f] l1 gf(4) cc by simp
  have r2: "\<forall>l \<in> fst ` set (linksDico (heap st2 self)). \<not> isabs l"
    unfolding k using old rel by blast
  have s2: "strategy st2 = strategy st"
    using strategy_index_links[of self "(st1, [])" linked] f gf(2)
    by (simp add: unchanged_but_heap_def emit_def)
  have 1: "replacementsDico (heap st4 self) = []"
    unfolding e using prepareReplacements_relative[OF r2]
    by (simp add: trace_keeps prepareAndCount_keeps)
  have 2: "replacementCount (strategy st4) = replacementCount (strategy st)"
    unfolding e using prepareAndCount_relative(1)[OF r2] s2 by (simp add: trace_keeps)
  have 3: "fileUpdatedCount (strategy st4) = fileUpdatedCount (strategy st)"
    unfolding e using prepareAndCount_relative(2)[OF r2] s2 by (simp add: trace_keeps)
  from prepareReplacements_keys 1 2 3 show ?thesis by blast
qed

text \<open>
  Claim C6. When \<^verbatim>\<open>searchLinks\<close> is called on a readable file, there is a state \<open>st4\<close>
  of the run in which the file is the only file read by the call so far, its link map
  holds every decoded token of its text, its links and replacements are added to the
  totals, and no newly discovered target has been read; the traversal of the new targets
  starts from \<open>st4\<close>, every later event of the call comes after the events of \<open>st4\<close>, and
  the traversal changes neither the link map nor the replacement map of the file. And in
  every run the events split into a first part without any file opened for writing and a
  second part without any file opened for reading.
\<close>

theorem links_counted_before_targets:
  assumes s: "searchLinks (Suc n) self d st = Some out"
    and c: "fs_read (fs st) (absPath (heap st self)) = Some content"
    and a: "self < nextId st"
  shows "(\<exists>st4 listNew rest.
            reads (events st4) = reads (events st) @ [absPath (heap st self)]
          \<and> fst ` set (linksDico (heap st4 self))
              = fst ` set (linksDico (heap st self)) \<union> matchToRpyx ` set (findall content)
          \<and> linkCount (strategy st4)
              = linkCount (strategy st) + int (length (linksDico (heap st4 self)))
          \<and> replacementCount (strategy st4)
              = replacementCount (strategy st) + int (length (replacementsDico (heap st4 self)))
          \<and> (\<forall>x \<in> set listNew. fileContent (heap st4 x) = None)
          \<and> (if d = 0 then out = Returned () st4
              else search_new n listNew (d - 1) st4 = Some out)
          \<and> events (final out) = events st4 @ rest
          \<and> linksDico (heap (final out) self) = linksDico (heap st4 self)
          \<and> replacementsDico (heap (final out) self) = replacementsDico (heap st4 self))
       \<and> (\<forall>fuel c0 fs0 k seeds out'.
            run fuel c0 fs0 k seeds = Some out'
            \<longrightarrow> (\<exists>pre post. events (final out') = pre @ post
                    \<and> written pre = [] \<and> reads post = []))"
proof -
  have "getLinkedRpyx self st \<noteq> Raised e s1" for e s1
    using getLinkedRpyx_Raised(1)[of self st e s1] c by auto
  then obtain linked st1 where g: "getLinkedRpyx self st = Returned linked st1"
    by (cases "getLinkedRpyx self st") auto
  obtain st4 listNew where o: "own_step self linked st1 = (st4, listNew)"
    by (cases "own_step self linked st1")
  from g obtain content' where gf:
    "fs_read (fs st) (absPath (heap st self)) = Some content'"
    "events st1 = events st @ [OpenRead (absPath (heap st self))]"
    "unchanged_but_heap (emit (OpenRead (absPath (heap st self))) st) st1"
    "self < nextId st \<longrightarrow> heap st1 self = (heap st self)\<lparr>fileContent := Some content'\<rparr>"
    "\<forall>j. nextId st \<le> j \<and> j < nextId st1
        \<longrightarrow> fileContent (heap st1 j) = None \<and> linksDico (heap st1 j) = []
            \<and> replacementsDico (heap st1 j) = []"
    "set (map snd linked) \<subseteq> {nextId st ..< nextId st1}"
    "fst ` set linked = matchToRpyx ` set (findall content')"
    by (rule getLinkedRpyx_Returned) blast
  from gf(1) c have cc: "content' = content" by simp
  note f = own_step_facts[OF o]
  from o obtain st2 where fo: "foldl (index_link self) (st1, []) linked = (st2, listNew)"
    and e: "st4 = trace self (prepareAndCountReplacements self st2)"
    by (rule own_step_unfold)
  have s1: "strategy st1 = strategy st" using gf(3) by (simp add: unchanged_but_heap_def emit_def)
  have p1: "reads (events st4) = reads (events st) @ [absPath (heap st self)]"
    using f(1) gf(2) by (simp add: indexing_def reads_append)
  have l1: "linksDico (heap st1 self) = linksDico (heap st self)" using gf(4) a by simp
  have "linksDico (heap st4 self) = linksDico (heap st2 self)"
    unfolding e by (simp add: trace_keeps prepareAndCount_counts(3))
  then have p2: "fst ` set (linksDico (heap st4 self))
              = fst ` set (linksDico (heap st self)) \<union> matchToRpyx ` set (findall content)"
    using index_links_keys[OF fo] l1 gf(7) cc by simp
  have p3: "linkCount (strategy st4)
              = linkCount (strategy st) + int (length (linksDico (heap st4 self)))"
    using f(2) s1 by simp
  have p4: "replacementCount (strategy st4)
              = replacementCount (strategy st) + int (length (replacementsDico (heap st4 self)))"
    using f(3) s1 by simp
  have fresh: "\<forall>x \<in> set listNew. nextId st \<le> x \<and> x < nextId st1"
  proof
    fix x assume "x \<in> set listNew"
    with f(5) gf(6) have "x \<in> {nextId st ..< nextId st1}" by blast
    then show "nextId st \<le> x \<and> x < nextId st1" by simp
  qed
  have p5: "\<forall>x \<in> set listNew. fileContent (heap st4 x) = None"
  proof
    fix x assume "x \<in> set listNew"
    with fresh gf(5) have "fileContent (heap st1 x) = None" by blast
    then show "fileContent (heap st4 x) = None" using indexing_fileContent[OF f(1)] by simp
  qed
  have p6: "if d = 0 then out = Returned () st4 else search_new n listNew (d - 1) st4 = Some out"
    using s g o unfolding searchLinks_Suc by (simp split: if_splits)
  have n4: "self < nextId st4" using a f(1) gf(3) extends_getLinkedRpyx[of st self] g
    by (simp add: indexing_def extends_def)
  have notnew: "self \<notin> set listNew" using fresh a by auto
  have rest: "(\<exists>rest. events (final out) = events st4 @ rest)
            \<and> heap (final out) self = heap st4 self"
  proof (cases "d = 0")
    case True
    with p6 show ?thesis by simp
  next
    case False
    with p6 have sn: "search_new n listNew (d - 1) st4 = Some out" by simp
    from extends_search_new[OF sn] have 1: "\<exists>rest. events (final out) = events st4 @ rest"
      by (auto simp: extends_def)
    from touches_search_new[OF sn] n4 notnew have "heap (final out) self = heap st4 self"
      by (simp add: touches_def)
    with 1 show ?thesis by blast
  qed
  then obtain rest where p7: "events (final out) = events st4 @ rest"
    and p8: "heap (final out) self = heap st4 self" by blast
  have A: "\<exists>st4 listNew rest.
            reads (events st4) = reads (events st) @ [absPath (heap st self)]
          \<and> fst ` set (linksDico (heap st4 self))
              = fst ` set (linksDico (heap st self)) \<union> matchToRpyx ` set (findall content)
          \<and> linkCount (strategy st4)
              = linkCount (strategy st) + int (length (linksDico (heap st4 self)))
          \<and> replacementCount (strategy st4)
              = replacementCount (strategy st) + int (length (replacementsDico (heap st4 self)))
          \<and> (\<forall>x \<in> set listNew. fileContent (heap st4 x) = None)
          \<and> (if d = 0 then out = Returned () st4
              else search_new n listNew (d - 1) st4 = Some out)
          \<and> events (final out) = events st4 @ rest
          \<and> linksDico (heap (final out) self) = linksDico (heap st4 self)
          \<and> replacementsDico (heap (final out) self) = replacementsDico (heap st4 self)"
    apply (rule exI[of _ st4], rule exI[of _ listNew], rule exI[of _ rest])
    apply (intro conjI p1 p2 p3 p4 p5 p6 p7)
     apply (simp_all add: p8)
    done
  have B: "\<forall>fuel c0 fs0 k seeds out'.
            run fuel c0 fs0 k seeds = Some out'
            \<longrightarrow> (\<exists>pre post. events (final out') = pre @ post
                    \<and> written pre = [] \<and> reads post = [])"
  proof (intro allI impI)
    fix fuel c0 fs0 k seeds out'
    assume "run fuel c0 fs0 k seeds = Some out'"
    then obtain pre post where "events (final out') = pre @ post" "written pre = []"
      "reads post = []" by (rule run_events)
    then show "\<exists>pre post. events (final out') = pre @ post \<and> written pre = [] \<and> reads post = []"
      by blast
  qed
  from A B show ?thesis by (rule conjI)
qed

text \<open>
  Claim C9, amended. Let a token of a searched file decode to \<open>link\<close>, with the new
  instance \<open>cand\<close> for its target, and let the target not exist on disk. Then searching
  the file alone returns without an error; \<open>cand\<close> is flagged as missing and is not queued;
  the token is linked to the instance that the index holds for the lower-cased path of the
  target; and when that instance is missing too (it is \<open>cand\<close> itself unless another
  spelling of the path was indexed before), it is not queued and the trace logs the
  token at level WARNING. In every run, no file that does not exist is opened, for reading
  or for writing.
\<close>

theorem missing_target_tolerated:
  assumes g: "getLinkedRpyx self st = Returned linked st1"
    and o: "own_step self linked st1 = (st4, listNew)"
    and m: "(link, cand) \<in> set linked"
    and missing: "\<not> fs_exists (fs st) (absPath (heap st1 cand))"
  shows "searchLinks (Suc n) self 0 st = Some (Returned () st4)
       \<and> \<not> exists (heap st4 cand)
       \<and> cand \<notin> set listNew
       \<and> (\<exists>c. map_of (linksDico (heap st4 self)) link = Some c
              \<and> map_of (indexByAbsPath st4) (lower (absPath (heap st1 cand))) = Some c
              \<and> (\<not> exists (heap st4 c)
                   \<longrightarrow> c \<notin> set listNew
                     \<and> Log WARNING
                          (''    '' @ rpyxToMatch link @ '' does not exists''
                           @ (case map_of (replacementsDico (heap st4 self)) (rpyxToMatch link) of
                                None \<Rightarrow> [] | Some n \<Rightarrow> '' => '' @ n))
                         \<in> set (events st4)))
       \<and> (\<forall>fuel c0 fs0 k seeds out.
            run fuel c0 fs0 k seeds = Some out
            \<longrightarrow> (\<forall>p \<in> set (reads (events (final out))) \<union> set (written (events (final out))).
                    fs_exists fs0 p))"
proof -
  from g obtain content :: string where gf:
    "set (map snd linked) \<subseteq> {nextId st ..< nextId st1}"
    "distinct (map fst linked)"
    by (rule getLinkedRpyx_Returned) blast
  note f = own_step_facts[OF o]
  from o obtain st2 where fo: "foldl (index_link self) (st1, []) linked = (st2, listNew)"
    and e: "st4 = trace self (prepareAndCountReplacements self st2)"
    by (rule own_step_unfold)
  let ?st3 = "prepareAndCountReplacements self st2"
  have p1: "searchLinks (Suc n) self 0 st = Some (Returned () st4)"
    unfolding searchLinks_Suc using g o by simp
  have e1: "extends st st1" using extends_getLinkedRpyx[of st self] g by simp
  from m have "cand \<in> set (map snd linked)" by force
  with gf(1) have "cand \<in> {nextId st ..< nextId st1}" by blast
  then have "nextId st \<le> cand \<and> cand < nextId st1" by simp
  with e1 have "exists (heap st1 cand) = fs_exists (fs st) (absPath (heap st1 cand))"
    unfolding extends_def by blast
  with missing have "\<not> exists (heap st1 cand)" by simp
  then have p2: "\<not> exists (heap st4 cand)" using indexing_exists[OF f(1)] by simp
  have p3: "cand \<notin> set listNew" using f(6) p2 by blast
  from index_links_registered[OF fo gf(2) m] obtain c where
    r: "map_of (linksDico (heap st2 self)) link = Some c"
       "map_of (indexByAbsPath st2) (lower (absPath (heap st1 cand))) = Some c" by blast
  have h4: "heap st4 = heap ?st3" unfolding e by (simp add: trace_keeps)
  have l4: "linksDico (heap st4 self) = linksDico (heap st2 self)"
    unfolding h4 by (simp add: prepareAndCount_counts(3))
  have i4: "indexByAbsPath st4 = indexByAbsPath st2"
    unfolding e by (simp add: trace_keeps prepareAndCount_keeps)
  have q1: "map_of (linksDico (heap st4 self)) link = Some c" using r(1) l4 by simp
  have q2: "map_of (indexByAbsPath st4) (lower (absPath (heap st1 cand))) = Some c"
    using r(2) i4 by simp
  have q3: "\<not> exists (heap st4 c)
             \<longrightarrow> c \<notin> set listNew
               \<and> Log WARNING
                    (''    '' @ rpyxToMatch link @ '' does not exists''
                     @ (case map_of (replacementsDico (heap st4 self)) (rpyxToMatch link) of
                          None \<Rightarrow> [] | Some n \<Rightarrow> '' => '' @ n))
                   \<in> set (events st4)"
  proof
    assume ne: "\<not> exists (heap st4 c)"
    then have n3: "\<not> exists (heap ?st3 c)" using h4 by simp
    have "(link, c) \<in> set (linksDico (heap ?st3 self))"
      using q1 h4 by (simp add: map_of_SomeD)
    then have "trace_line (heap ?st3 self) ?st3 (link, c) \<in> set (events st4)"
      unfolding e set_trace_events by blast
    then have "Log WARNING
                    (''    '' @ rpyxToMatch link @ '' does not exists''
                     @ (case map_of (replacementsDico (heap st4 self)) (rpyxToMatch link) of
                          None \<Rightarrow> [] | Some n \<Rightarrow> '' => '' @ n))
                   \<in> set (events st4)"
      unfolding trace_line_missing[OF n3] h4 .
    moreover have "c \<notin> set listNew" using f(6) ne by blast
    ultimately show "c \<notin> set listNew
               \<and> Log WARNING
                    (''    '' @ rpyxToMatch link @ '' does not exists''
                     @ (case map_of (replacementsDico (heap st4 self)) (rpyxToMatch link) of
                          None \<Rightarrow> [] | Some n \<Rightarrow> '' => '' @ n))
                   \<in> set (events st4)" by simp
  qed
  have A: "\<exists>c. map_of (linksDico (heap st4 self)) link = Some c
              \<and> map_of (indexByAbsPath st4) (lower (absPath (heap st1 cand))) = Some c
              \<and> (\<not> exists (heap st4 c)
                   \<longrightarrow> c \<notin> set listNew
                     \<and> Log WARNING
                          (''    '' @ rpyxToMatch link @ '' does not exists''
                           @ (case map_of (replacementsDico (heap st4 self)) (rpyxToMatch link) of
                                None \<Rightarrow> [] | Some n \<Rightarrow> '' => '' @ n))
                         \<in> set (events st4))"
    by (rule exI[of _ c]) (intro conjI q1 q2 q3)
  have B: "\<forall>fuel c0 fs0 k seeds out.
            run fuel c0 fs0 k seeds = Some out
            \<longrightarrow> (\<forall>p \<in> set (reads (events (final out))) \<union> set (written (events (final out))).
                    fs_exists fs0 p)"
  proof (intro allI impI)
    fix fuel c0 fs0 k seeds out
    assume "run fuel c0 fs0 k seeds = Some out"
    then obtain pre post where ev: "events (final out) = pre @ post"
      "written pre = []" "reads post = []"
      "\<forall>p \<in> set (reads pre). fs_exists fs0 p"
      "\<forall>p \<in> set (written post). fs_exists fs0 p"
      by (rule run_events)
    show "\<forall>p \<in> set (reads (events (final out))) \<union> set (written (events (final out))).
            fs_exists fs0 p"
      using ev by (auto simp: reads_append written_append)
  qed
  show ?thesis by (intro conjI p1 p2 p3 A B)
qed

section \<open>Runs on concrete file sets\<close>

text \<open>The runs below are evaluated in two stages: the string functions on the strings
  of the file set first, then the operations on the state.\<close>

lemma fs_of_simps:
  "fs_exists (fs_of files) p = (map_of files p \<noteq> None)"
  "fs_read (fs_of files) p = map_of files p"
  "fs_writable (fs_of files) p = True"
  by (simp_all add: fs_of_def)

lemmas plumbing = run_def update_def init_state_def strategy_init_def blank_def RhpRpyx_init_def set_obj_def emit_def log_def getLinkedRpyx_def joinRelativePath_def linkRpyx_def prepareReplacements_def prepareAndCountReplacements_def trace_def trace_line_def getIndexedRhpyx_def addIndexedRhpyx_def index_link_def strategy_doReplacements_def doReplacements_def Let_def fs_of_simps

(*SLOW-BEGIN*)
lemma strs_scenario:
 "matchToRpyx ''>/proj/sub/X_rpy<'' = ''/proj/sub/X.rpyx''"
 "isabs ''/proj/sub/X.rpyx''"
 "abspath c ''/proj/sub/X.rpyx'' = ''/proj/sub/X.rpyx''"
 "abspath c ''/proj/A.rpyx'' = ''/proj/A.rpyx''"
 "relpath c ''/proj/sub/X.rpyx'' ''/proj/A.rpyx'' = ''../sub/X.rpyx''"
 "rpyxToMatch ''/proj/sub/X.rpyx'' = ''>/proj/sub/X_rpy<''"
 "rpyxToMatch ''../sub/X.rpyx'' = ''>../sub/X_rpy<''"
 "lower ''/proj/sub/X.rpyx'' = ''/proj/sub/x.rpyx''"
  by (simp_all add: matchToRpyx_def lstrip_def rstrip_def
        isabs_def abspath_def normpath_def join_def relpath_def rpyxToMatch_def lower_def lower_char_def)

lemma finds_scenario:
  "findall ''<a>/proj/sub/X_rpy</a>'' = [''>/proj/sub/X_rpy<'']"
  "findall ''<x>no link</x>'' = []"
  by (simp_all add: findall_def match_here_def newline_def)

text \<open>
  Claim C1, as stated, fails. On the file set of the scenario, with a write cap of 1,
  the one replacement computed for \<^verbatim>\<open>A\<close> has the new token \<^verbatim>\<open>>../sub/X_rpy<\<close>, which
  decodes to \<^verbatim>\<open>../sub/X.rpyx\<close> and not to \<^verbatim>\<open>sub/X.rpyx\<close>: the path is taken relative to
  the path of \<^verbatim>\<open>A\<close> itself. And no file is opened for writing: the text of \<^verbatim>\<open>A\<close> on
  disk is still the old one, because the seed is never put into the index.
\<close>

theorem scenario_counterexample:
  "map_option
     (\<lambda>out. (map snd (replacementsDico (heap (final out) 0)),
             written (events (final out)),
             fs_read (fs (final out)) ''/proj/A.rpyx''))
     (run (Suc (Suc 0)) ''/proj'' (fs_of files_scenario) 1 [''/proj/A.rpyx''])
   = Some ([''>../sub/X_rpy<''], [], Some ''<a>/proj/sub/X_rpy</a>'')
   \<and> matchToRpyx ''>../sub/X_rpy<'' = ''../sub/X.rpyx''"
  by (simp add: plumbing strs_scenario finds_scenario files_scenario_def)
     (simp add: matchToRpyx_def lstrip_def rstrip_def)

text \<open>
  Claim C1, amended. When the seed list is \<^verbatim>\<open>/proj/A.rpyx\<close>, the text of \<^verbatim>\<open>A\<close> holds
  the one token \<^verbatim>\<open>>/proj/sub/X_rpy<\<close> and the text of \<^verbatim>\<open>/proj/sub/X.rpyx\<close> holds none,
  then for every write cap, working directory and enough fuel the run returns, reads
  exactly the two files \<^verbatim>\<open>A\<close> and \<^verbatim>\<open>X\<close>, computes exactly one replacement for \<^verbatim>\<open>A\<close>,
  whose new token is \<^verbatim>\<open>>../sub/X_rpy<\<close> (the path of \<^verbatim>\<open>X\<close> relative to the path of \<^verbatim>\<open>A\<close>),
  and leaves the text of \<^verbatim>\<open>X\<close> as it was.
\<close>

theorem scenario_run:
  assumes "findall contentA = [''>/proj/sub/X_rpy<'']" and "findall contentX = []"
  shows "map_option
           (\<lambda>out. (reads (events (final out)),
                   replacementsDico (heap (final out) 0),
                   replacementCount (strategy (final out)),
                   fs_read (fs (final out)) ''/proj/sub/X.rpyx''))
           (run (Suc (Suc n)) c
              (fs_of [(''/proj/A.rpyx'', contentA), (''/proj/sub/X.rpyx'', contentX)]) k
              [''/proj/A.rpyx''])
         = Some ([''/proj/A.rpyx'', ''/proj/sub/X.rpyx''],
                 [(''>/proj/sub/X_rpy<'', ''>../sub/X_rpy<'')],
                 1,
                 Some contentX)"
  by (simp add: plumbing strs_scenario assms)

theorem scenario_run_witness:
  "findall ''<a>/proj/sub/X_rpy</a>'' = [''>/proj/sub/X_rpy<'']
   \<and> findall ''<x>no link</x>'' = []
   \<and> map_option
         (\<lambda>out. (reads (events (final out)),
                 replacementsDico (heap (final out) 0),
                 replacementCount (strategy (final out)),
                 fs_read (fs (final out)) ''/proj/sub/X.rpyx''))
         (run (Suc (Suc 0)) ''/proj''
            (fs_of [(''/proj/A.rpyx'', ''<a>/proj/sub/X_rpy</a>''),
                    (''/proj/sub/X.rpyx'', ''<x>no link</x>'')]) 1
            [''/proj/A.rpyx''])
       = Some ([''/proj/A.rpyx'', ''/proj/sub/X.rpyx''],
               [(''>/proj/sub/X_rpy<'', ''>../sub/X_rpy<'')],
               1,
               Some ''<x>no link</x>'')"
  using scenario_run[OF finds_scenario(1) finds_scenario(2), of 0 "''/proj''" 1] finds_scenario
  by simp

text \<open>
  Claim C5, as stated, fails. With the write cap 0 of the main block nothing is written,
  so the second run on the files the first run left computes the same replacement again:
  one in the first run, one in the second.
\<close>

theorem rerun_counterexample:
  "map_option
     (\<lambda>out1. map_option
        (\<lambda>out2. (replacementCount (strategy (final out1)),
                  replacementCount (strategy (final out2))))
        (run (Suc (Suc 0)) ''/proj'' (fs (final out1)) 0 [''/proj/A.rpyx'']))
     (run (Suc (Suc 0)) ''/proj'' (fs_of files_scenario) 0 [''/proj/A.rpyx''])
   = Some (Some (1, 1))"
  by (simp add: plumbing strs_scenario finds_scenario files_scenario_def)

lemma strs_cycle:
 "findall ''<a>/proj/B_rpy</a>'' = [''>/proj/B_rpy<'']"
 "findall ''<b>/proj/A_rpy</b>'' = [''>/proj/A_rpy<'']"
 "matchToRpyx ''>/proj/B_rpy<'' = ''/proj/B.rpyx''"
 "matchToRpyx ''>/proj/A_rpy<'' = ''/proj/A.rpyx''"
 "isabs ''/proj/A.rpyx''"
 "isabs ''/proj/B.rpyx''"
 "abspath c ''/proj/A.rpyx'' = ''/proj/A.rpyx''"
 "abspath c ''/proj/B.rpyx'' = ''/proj/B.rpyx''"
 "relpath c ''/proj/B.rpyx'' ''/proj/A.rpyx'' = ''../B.rpyx''"
 "relpath c ''/proj/A.rpyx'' ''/proj/B.rpyx'' = ''../A.rpyx''"
 "rpyxToMatch ''/proj/A.rpyx'' = ''>/proj/A_rpy<''"
 "rpyxToMatch ''/proj/B.rpyx'' = ''>/proj/B_rpy<''"
 "rpyxToMatch ''../A.rpyx'' = ''>../A_rpy<''"
 "rpyxToMatch ''../B.rpyx'' = ''>../B_rpy<''"
 "lower ''/proj/A.rpyx'' = ''/proj/a.rpyx''"
 "lower ''/proj/B.rpyx'' = ''/proj/b.rpyx''"
 "str_nat (Suc 0) = ''1''"
  by (simp_all add: text_lines_def findall_def match_here_def newline_def matchToRpyx_def lstrip_def rstrip_def
        isabs_def abspath_def normpath_def join_def relpath_def rpyxToMatch_def lower_def lower_char_def
        str_nat.simps)

lemma cycle_dry_run:
  "map_option
     (\<lambda>out. (reads (events (final out)),
             map (\<lambda>j. absPath (heap (final out) j)) [0, 1, 2],
             written (events (final out)),
             map (fs_read (fs (final out))) [''/proj/A.rpyx'', ''/proj/B.rpyx''],
             updatedFileCount (strategy (final out))))
     (run (Suc (Suc (Suc 0))) ''/proj'' (fs_of files_cycle) 0 [''/proj/A.rpyx''])
   = Some ([''/proj/A.rpyx'', ''/proj/B.rpyx'', ''/proj/A.rpyx''],
           [''/proj/A.rpyx'', ''/proj/B.rpyx'', ''/proj/A.rpyx''],
           [],
           [Some ''<a>/proj/B_rpy</a>'', Some ''<b>/proj/A_rpy</b>''],
           2)"
  by (simp add: plumbing strs_cycle files_cycle_def)

text \<open>
  Claim C4 on the cycle. The run returns, and it reads \<^verbatim>\<open>A\<close> twice: once as the
  seed, which \<^verbatim>\<open>update\<close> never puts into the index, and once more as the target of \<^verbatim>\<open>B\<close>,
  for which a second instance with the same path is made.
\<close>

theorem cycle_reads_seed_twice:
  "map_option
     (\<lambda>out. (reads (events (final out)), map (\<lambda>j. absPath (heap (final out) j)) [0, 1, 2]))
     (run (Suc (Suc (Suc 0))) ''/proj'' (fs_of files_cycle) 0 [''/proj/A.rpyx''])
   = Some ([''/proj/A.rpyx'', ''/proj/B.rpyx'', ''/proj/A.rpyx''],
           [''/proj/A.rpyx'', ''/proj/B.rpyx'', ''/proj/A.rpyx''])"
  using cycle_dry_run
  by (cases "run (Suc (Suc (Suc 0))) ''/proj'' (fs_of files_cycle) 0 [''/proj/A.rpyx'']") simp_all

text \<open>
  Claim C7, as stated, fails. With a write cap of 0 no file is opened for writing and
  the two texts are unchanged, yet the counter \<^verbatim>\<open>updatedFileCount\<close> ends at 2: it is
  advanced for every existing file with a replacement, written or not.
\<close>

theorem dry_run_counter_counterexample:
  "map_option
     (\<lambda>out. (written (events (final out)),
             map (fs_read (fs (final out))) [''/proj/A.rpyx'', ''/proj/B.rpyx''],
             updatedFileCount (strategy (final out))))
     (run (Suc (Suc (Suc 0))) ''/proj'' (fs_of files_cycle) 0 [''/proj/A.rpyx''])
   = Some ([], [Some ''<a>/proj/B_rpy</a>'', Some ''<b>/proj/A_rpy</b>''], 2)"
  using cycle_dry_run
  by (cases "run (Suc (Suc (Suc 0))) ''/proj'' (fs_of files_cycle) 0 [''/proj/A.rpyx'']") simp_all

text \<open>
  Claim C7, amended. When \<^verbatim>\<open>doReplacements\<close> of the strategy is called on an existing
  file with at least one computed replacement and the counter of the cap has reached the
  cap, it returns without an error, the file system is unchanged, no file is opened for
  writing, and no instance and none of the three counters of the summary changes. In
  particular a run with a cap of zero or less leaves the file system as it was and opens no
  file for writing.
\<close>

theorem cap_reached_skips_write:
  assumes "exists (heap st f)" and "replacementsDico (heap st f) \<noteq> []"
    and "maxFileToUpdate (strategy st) \<le> updatedFileCount (strategy st)"
  shows "(\<exists>st'. strategy_doReplacements f st = Returned () st'
            \<and> fs st' = fs st
            \<and> written (events st') = written (events st)
            \<and> heap st' = heap st
            \<and> linkCount (strategy st') = linkCount (strategy st)
            \<and> replacementCount (strategy st') = replacementCount (strategy st)
            \<and> fileUpdatedCount (strategy st') = fileUpdatedCount (strategy st))
       \<and> (\<forall>fuel c fs0 k seeds out.
            k \<le> 0 \<longrightarrow> run fuel c fs0 k seeds = Some out
              \<longrightarrow> fs (final out) = fs0 \<and> written (events (final out)) = [])"
proof -
  from strategy_doReplacements_capped[OF assms(3), of f]
  have "\<exists>st'. strategy_doReplacements f st = Returned () st'
            \<and> fs st' = fs st
            \<and> written (events st') = written (events st)
            \<and> heap st' = heap st
            \<and> linkCount (strategy st') = linkCount (strategy st)
            \<and> replacementCount (strategy st') = replacementCount (strategy st)
            \<and> fileUpdatedCount (strategy st') = fileUpdatedCount (strategy st)"
    by (auto simp: written_append)
  then show ?thesis using dry_run_writes_nothing by blast
qed

theorem cap_reached_skips_write_witness:
  "exists (heap (set_obj 0 (blank\<lparr>exists := True,
                                   replacementsDico := [(''>/p/X_rpy<'', ''>../X_rpy<'')]\<rparr>)
                   (init_state ''/proj'' (fs_of []) 0)) 0)
   \<and> replacementsDico (heap (set_obj 0 (blank\<lparr>exists := True,
                                   replacementsDico := [(''>/p/X_rpy<'', ''>../X_rpy<'')]\<rparr>)
                   (init_state ''/proj'' (fs_of []) 0)) 0) \<noteq> []
   \<and> maxFileToUpdate (strategy (init_state ''/proj'' (fs_of []) 0))
        \<le> updatedFileCount (strategy (init_state ''/proj'' (fs_of []) 0))
   \<and> (\<exists>st'. strategy_doReplacements 0
               (set_obj 0 (blank\<lparr>exists := True,
                                   replacementsDico := [(''>/p/X_rpy<'', ''>../X_rpy<'')]\<rparr>)
                   (init_state ''/proj'' (fs_of []) 0)) = Returned () st'
          \<and> fs st' = fs_of [] \<and> written (events st') = [])
   \<and> (case run (Suc (Suc (Suc 0))) ''/proj'' (fs_of files_cycle) 0 [''/proj/A.rpyx''] of
         None \<Rightarrow> False
       | Some out \<Rightarrow> fs (final out) = fs_of files_cycle \<and> written (events (final out)) = [])"
proof -
  let ?st = "set_obj 0 (blank\<lparr>exists := True,
                                replacementsDico := [(''>/p/X_rpy<'', ''>../X_rpy<'')]\<rparr>)
                (init_state ''/proj'' (fs_of []) 0)"
  have a1: "exists (heap ?st 0)" by (simp add: set_obj_def)
  have a2: "replacementsDico (heap ?st 0) \<noteq> []" by (simp add: set_obj_def)
  have a3: "maxFileToUpdate (strategy ?st) \<le> updatedFileCount (strategy ?st)"
    by (simp add: set_obj_def init_state_def strategy_init_def)
  have a3': "maxFileToUpdate (strategy (init_state ''/proj'' (fs_of []) 0))
        \<le> updatedFileCount (strategy (init_state ''/proj'' (fs_of []) 0))"
    by (simp add: init_state_def strategy_init_def)
  have f: "fs ?st = fs_of []" and e: "written (events ?st) = []"
    by (simp_all add: set_obj_def init_state_def)
  note t = cap_reached_skips_write[OF a1 a2 a3]
  from t[THEN conjunct1] obtain st' where s: "strategy_doReplacements 0 ?st = Returned () st'"
    "fs st' = fs ?st" "written (events st') = written (events ?st)" by blast
  have c4: "\<exists>st'. strategy_doReplacements 0 ?st = Returned () st'
          \<and> fs st' = fs_of [] \<and> written (events st') = []"
    using s f e by simp
  obtain out where r: "run (Suc (Suc (Suc 0))) ''/proj'' (fs_of files_cycle) 0 [''/proj/A.rpyx'']
     = Some out"
    using cycle_dry_run
    by (cases "run (Suc (Suc (Suc 0))) ''/proj'' (fs_of files_cycle) 0 [''/proj/A.rpyx'']") simp_all
  have d: "fs (final out) = fs_of files_cycle \<and> written (events (final out)) = []"
    by (rule t[THEN conjunct2, rule_format, OF _ r]) simp
  have c5: "case run (Suc (Suc (Suc 0))) ''/proj'' (fs_of files_cycle) 0 [''/proj/A.rpyx''] of
         None \<Rightarrow> False
       | Some out \<Rightarrow> fs (final out) = fs_of files_cycle \<and> written (events (final out)) = []"
    unfolding r using d by simp
  show ?thesis
    by (rule conjI[OF a1 conjI[OF a2 conjI[OF a3' conjI[OF c4 c5]]]])
qed

lemma strs_self:
 "findall (text_lines [''<a>/proj/A_rpy</a>'', ''<a>/proj/./A_rpy</a>''])
     = [''>/proj/A_rpy<'', ''>/proj/./A_rpy<'']"
 "matchToRpyx ''>/proj/A_rpy<'' = ''/proj/A.rpyx''"
 "matchToRpyx ''>/proj/./A_rpy<'' = ''/proj/./A.rpyx''"
 "isabs ''/proj/A.rpyx''"
 "isabs ''/proj/./A.rpyx''"
 "abspath c ''/proj/A.rpyx'' = ''/proj/A.rpyx''"
 "abspath c ''/proj/./A.rpyx'' = ''/proj/A.rpyx''"
 "relpath c ''/proj/A.rpyx'' ''/proj/A.rpyx'' = ''.''"
 "relpath c ''/proj/./A.rpyx'' ''/proj/A.rpyx'' = ''.''"
 "rpyxToMatch ''/proj/A.rpyx'' = ''>/proj/A_rpy<''"
 "rpyxToMatch ''/proj/./A.rpyx'' = ''>/proj/./A_rpy<''"
 "rpyxToMatch ''.'' = ''>._rpy<''"
 "lower ''/proj/A.rpyx'' = ''/proj/a.rpyx''"
  by (simp_all add: text_lines_def findall_def match_here_def newline_def matchToRpyx_def lstrip_def rstrip_def
        isabs_def abspath_def normpath_def join_def relpath_def rpyxToMatch_def lower_def lower_char_def)

text \<open>
  Claim C3 on a seed that refers to itself by two tokens. Both tokens are linked to the
  one indexed instance at address 1, but the seed, at address 0, is a second instance
  with the same path, and the text of the file is read twice.
\<close>

theorem seed_instance_duplicated:
  "map_option
     (\<lambda>out. (reads (events (final out)),
             map (\<lambda>j. absPath (heap (final out) j)) [0, 1],
             map (\<lambda>j. map snd (linksDico (heap (final out) j))) [0, 1],
             map (\<lambda>j. fileContent (heap (final out) j) \<noteq> None) [0, 1],
             indexByAbsPath (final out)))
     (run (Suc (Suc (Suc 0))) ''/proj'' (fs_of files_self) 0 [''/proj/A.rpyx''])
   = Some ([''/proj/A.rpyx'', ''/proj/A.rpyx''],
           [''/proj/A.rpyx'', ''/proj/A.rpyx''],
           [[1, 1], [1, 1]],
           [True, True],
           [(''/proj/a.rpyx'', 1)])"
  by (simp add: plumbing strs_self files_self_def)

text \<open>
  Claim C8 on two tokens in one line. The greedy star runs to the last \<^verbatim>\<open>_rpy<\<close> of the
  line, so the two tokens come back as one match, and one link; on two lines they are
  two matches.
\<close>

theorem same_line_tokens_merged:
  "findall ''<a>/p/X_rpy</a><b>/p/Y_rpy</b>'' = [''>/p/X_rpy</a><b>/p/Y_rpy<'']
   \<and> map matchToRpyx (findall ''<a>/p/X_rpy</a><b>/p/Y_rpy</b>'') = [''/p/X</a><b>/p/Y_rpy.rpyx'']
   \<and> findall (text_lines [''<a>/p/X_rpy</a>'', ''<b>/p/Y_rpy</b>'']) = [''>/p/X_rpy<'', ''>/p/Y_rpy<'']"
  by (simp add: text_lines_def findall_def match_here_def newline_def matchToRpyx_def lstrip_def rstrip_def)

lemma strs_case:
 "findall (text_lines [''<a>/proj/X_rpy</a>'', ''<a>/proj/x_rpy</a>''])
     = [''>/proj/X_rpy<'', ''>/proj/x_rpy<'']"
 "findall ''<x>no link</x>'' = []"
 "matchToRpyx ''>/proj/X_rpy<'' = ''/proj/X.rpyx''"
 "matchToRpyx ''>/proj/x_rpy<'' = ''/proj/x.rpyx''"
 "isabs ''/proj/X.rpyx''"
 "isabs ''/proj/x.rpyx''"
 "abspath c ''/proj/A.rpyx'' = ''/proj/A.rpyx''"
 "abspath c ''/proj/X.rpyx'' = ''/proj/X.rpyx''"
 "abspath c ''/proj/x.rpyx'' = ''/proj/x.rpyx''"
 "relpath c ''/proj/X.rpyx'' ''/proj/A.rpyx'' = ''../X.rpyx''"
 "relpath c ''/proj/x.rpyx'' ''/proj/A.rpyx'' = ''../x.rpyx''"
 "rpyxToMatch ''/proj/X.rpyx'' = ''>/proj/X_rpy<''"
 "rpyxToMatch ''/proj/x.rpyx'' = ''>/proj/x_rpy<''"
 "rpyxToMatch ''../X.rpyx'' = ''>../X_rpy<''"
 "rpyxToMatch ''../x.rpyx'' = ''>../x_rpy<''"
 "lower ''/proj/X.rpyx'' = ''/proj/x.rpyx''"
 "lower ''/proj/x.rpyx'' = ''/proj/x.rpyx''"
  by (simp_all add: text_lines_def findall_def match_here_def newline_def matchToRpyx_def lstrip_def rstrip_def
        isabs_def abspath_def normpath_def join_def relpath_def rpyxToMatch_def lower_def lower_char_def)

text \<open>
  Claim C9, as stated, fails. \<^verbatim>\<open>/proj/x.rpyx\<close> does not exist, but its lower-case
  identity is that of \<^verbatim>\<open>/proj/X.rpyx\<close>, which exists and is indexed first: the token is
  linked to that instance, and the trace reports it at level INFO as existing.
\<close>

theorem missing_target_counterexample:
  "fs_exists (fs_of files_case) ''/proj/x.rpyx'' = False
   \<and> map_option
     (\<lambda>out. (linksDico (heap (final out) 0),
             map (\<lambda>j. (absPath (heap (final out) j), exists (heap (final out) j))) [1, 2],
             filter (\<lambda>e. e \<noteq> hd (events (final out))) (events (final out))))
     (run (Suc (Suc (Suc 0))) ''/proj'' (fs_of files_case) 0 [''/proj/A.rpyx''])
   = Some ([(''/proj/X.rpyx'', 1), (''/proj/x.rpyx'', 1)],
           [(''/proj/X.rpyx'', True), (''/proj/x.rpyx'', False)],
           [OpenRead ''/proj/A.rpyx'',
            Log DEBUG ''Adding /proj/x.rpyx to index'',
            Log INFO ''Links of /proj/A.rpyx'',
            Log INFO ''    >/proj/X_rpy< folder exists => >../X_rpy<'',
            Log INFO ''    >/proj/x_rpy< folder exists => >../x_rpy<'',
            OpenRead ''/proj/X.rpyx'',
            Log INFO ''Links of /proj/X.rpyx'',
            Log DEBUG ''Skipping file /proj/X.rpyx, as there is no replacement to do''])"
  by (simp add: plumbing strs_case files_case_def)
(*SLOW-END*)

end
